theory Spec2Isabelle
  imports Main "HOL-Library.Multiset"
begin

section \<open>Data model of \<open>MineSweeper.py\<close>\<close>

text \<open>
  Exceptions the class can raise: \<open>KeyError\<close> from the difficulty dictionary,
  \<open>IndexError\<close> and \<open>OverflowError\<close> from numpy indexing, \<open>ValueError\<close> from a slice
  assignment whose shapes do not fit.
\<close>

datatype error = KeyError | IndexError | ValueError | OverflowError

text \<open>
  A two-dimensional numpy array is a list of rows. The entries of \<open>field\<close> are
  integers (\<open>-1\<close> a mine, otherwise the number of touching mines); the entries of
  \<open>field_map\<close> are the floats \<open>0.0\<close>, \<open>1.0\<close>, \<open>2.0\<close> (buried, dug, flagged), which
  the code only compares with and assigns from the integers 0, 1, 2, so they are
  integers here as well.
\<close>

type_synonym array2 = "int list list"

record minefield =
  mine_amnt :: int
  width :: int
  height :: int
  field :: array2
  field_map :: array2
  game_lost_attr :: bool
  game_won_attr :: "bool option"

text \<open>
  \<open>game_lost_attr\<close> is the attribute \<open>_game_lost\<close> (the class attribute \<open>False\<close>
  until \<open>dig\<close> binds it on the instance); \<open>game_won_attr\<close> is \<open>_game_won\<close>, which
  does not exist (\<open>None\<close>) before the first \<open>game_won\<close> query.
\<close>

subsection \<open>numpy indexing\<close>

text \<open>
  An index \<open>i\<close> on an axis of length \<open>n\<close> is valid for \<open>-n \<le> i < n\<close>; a negative one
  counts from the end. Anything else raises an exception, see \<open>index_exception\<close>.
\<close>

definition norm_index :: "nat \<Rightarrow> int \<Rightarrow> nat option" where
  "norm_index n i =
     (if 0 \<le> i \<and> i < int n then Some (nat i)
      else if - int n \<le> i \<and> i < 0 then Some (nat (i + int n))
      else None)"

definition index2 :: "array2 \<Rightarrow> int \<Rightarrow> int \<Rightarrow> (nat \<times> nat) option" where
  "index2 a r c =
     (case norm_index (length a) r of
        None \<Rightarrow> None
      | Some i \<Rightarrow>
          (case norm_index (length (a ! i)) c of
             None \<Rightarrow> None
           | Some j \<Rightarrow> Some (i, j)))"

text \<open>
  What an index that is not valid raises. numpy converts each index of \<open>a[r, c]\<close>, the
  row first, to a signed C integer of 64 bits, and only then tests them against the
  shape. A Python \<open>int\<close> that does not fit is tried as an array: from \<open>2^63\<close> up to
  \<open>2^64 - 1\<close> it is an unsigned 64-bit scalar, whose conversion raises
  \<open>OverflowError\<close>; any other is an object, which numpy refuses as an index with
  \<open>IndexError\<close>, the exception of an index outside the shape as well. An axis is
  shorter than \<open>2^63\<close>, so a valid index always converts.
\<close>

definition intp_error :: "int \<Rightarrow> error option" where
  "intp_error i =
     (if - (2 ^ 63) \<le> i \<and> i < 2 ^ 63 then None
      else if 2 ^ 63 \<le> i \<and> i < 2 ^ 64 then Some OverflowError
      else Some IndexError)"

definition index_exception :: "int \<Rightarrow> int \<Rightarrow> error" where
  "index_exception r c =
     (case intp_error r of
        Some e \<Rightarrow> e
      | None \<Rightarrow> (case intp_error c of Some e \<Rightarrow> e | None \<Rightarrow> IndexError))"

definition getitem :: "array2 \<Rightarrow> int \<Rightarrow> int \<Rightarrow> error + int" where
  "getitem a r c =
     (case index2 a r c of
        None \<Rightarrow> Inl (index_exception r c)
      | Some (i, j) \<Rightarrow> Inr (a ! i ! j))"

definition setitem :: "array2 \<Rightarrow> int \<Rightarrow> int \<Rightarrow> int \<Rightarrow> error + array2" where
  "setitem a r c v =
     (case index2 a r c of
        None \<Rightarrow> Inl (index_exception r c)
      | Some (i, j) \<Rightarrow> Inr (a[i := (a ! i)[j := v]]))"

subsection \<open>\<open>__surrounds\<close>\<close>

text \<open>
  The eight candidate locations in the order the code builds them (\<open>sur_row\<close>,
  \<open>sur_col\<close> with its middle entry removed), filtered by the bounds test.
\<close>

definition sur_locs :: "int \<Rightarrow> int \<Rightarrow> (int \<times> int) list" where
  "sur_locs loc_row loc_col =
     [(loc_row - 1, loc_col - 1), (loc_row - 1, loc_col), (loc_row - 1, loc_col + 1),
      (loc_row, loc_col - 1), (loc_row, loc_col + 1),
      (loc_row + 1, loc_col - 1), (loc_row + 1, loc_col), (loc_row + 1, loc_col + 1)]"

definition surrounds :: "minefield \<Rightarrow> int \<Rightarrow> int \<Rightarrow> (int \<times> int) list" where
  "surrounds s loc_row loc_col =
     filter (\<lambda>(row, col). 0 \<le> row \<and> row < height s \<and> 0 \<le> col \<and> col < width s)
       (sur_locs loc_row loc_col)"

subsection \<open>\<open>flag\<close> and \<open>dig\<close>\<close>

text \<open>
  Both methods mutate the instance, and an exception leaves the instance as it was
  when it was raised. So a call yields the exception raised, if any, and the instance
  after the call.
\<close>

definition flag :: "int \<Rightarrow> int \<Rightarrow> minefield \<Rightarrow> error option \<times> minefield" where
  "flag loc_row loc_col s =
     (case getitem (field_map s) loc_row loc_col of
        Inl e \<Rightarrow> (Some e, s)
      | Inr v \<Rightarrow>
          if v = 0 then
            (case setitem (field_map s) loc_row loc_col 2 of
               Inl e \<Rightarrow> (Some e, s)
             | Inr fm \<Rightarrow> (None, s\<lparr>field_map := fm\<rparr>))
          else if v = 2 then
            (case setitem (field_map s) loc_row loc_col 0 of
               Inl e \<Rightarrow> (Some e, s)
             | Inr fm \<Rightarrow> (None, s\<lparr>field_map := fm\<rparr>))
          else (None, s))"

text \<open>The number of buried entries of a status array: what the recursion of \<open>dig\<close> uses up.\<close>

definition buried_count :: "array2 \<Rightarrow> nat" where
  "buried_count a = length (filter (\<lambda>v. v = 0) (concat a))"

text \<open>
  \<open>dig\<close> calls itself in a \<open>for\<close> loop over the surrounding locations; \<open>dig_each\<close>
  is that loop. An exception in one call ends the loop. The code reads
  \<open>self.field[loc_row, loc_col]\<close> once for each of its two tests; nothing is written
  between them, so it is read once here. Python's limit on the depth of recursion is
  not part of the model: a call nests at most as deep as there are buried locations,
  480 on the largest board.
\<close>

function dig :: "int \<Rightarrow> int \<Rightarrow> minefield \<Rightarrow> error option \<times> minefield"
  and dig_each :: "(int \<times> int) list \<Rightarrow> minefield \<Rightarrow> error option \<times> minefield" where
  "dig loc_row loc_col s =
     (case getitem (field_map s) loc_row loc_col of
        Inl e \<Rightarrow> (Some e, s)
      | Inr v \<Rightarrow>
          if v = 0 then
            (case setitem (field_map s) loc_row loc_col 1 of
               Inl e \<Rightarrow> (Some e, s)
             | Inr fm \<Rightarrow>
                 (case getitem (field s) loc_row loc_col of
                    Inl e \<Rightarrow> (Some e, s\<lparr>field_map := fm\<rparr>)
                  | Inr f \<Rightarrow>
                      if f = -1 then (None, s\<lparr>field_map := fm, game_lost_attr := True\<rparr>)
                      else if f = 0 then
                        dig_each (surrounds (s\<lparr>field_map := fm\<rparr>) loc_row loc_col)
                          (s\<lparr>field_map := fm\<rparr>)
                      else (None, s\<lparr>field_map := fm\<rparr>)))
          else (None, s))"
| "dig_each [] s = (None, s)"
| "dig_each ((row, col) # locs) s =
     (case dig row col s of
        (Some e, s') \<Rightarrow> (Some e, s')
      | (None, s') \<Rightarrow> dig_each locs s')"
  by pat_completeness auto

text \<open>
  Setting a buried entry to a non-zero status uses up one buried entry; this is the
  measure under which the recursion of \<open>dig\<close> through \<open>dig_each\<close> ends.
\<close>

lemma count_list_update:
  "j < length xs \<Longrightarrow>
   length (filter P (xs[j := v])) + (if P (xs ! j) then 1 else 0)
     = length (filter P xs) + (if P v then 1 else 0)"
proof (induction xs arbitrary: j)
  case Nil
  then show ?case by simp
next
  case (Cons x xs)
  then show ?case by (cases j) auto
qed

lemma buried_count_update_eq:
  "i < length a \<Longrightarrow> j < length (a ! i) \<Longrightarrow>
   buried_count (a[i := (a ! i)[j := v]]) + (if a ! i ! j = 0 then 1 else 0)
     = buried_count a + (if v = 0 then 1 else 0)"
proof (induction a arbitrary: i)
  case Nil
  then show ?case by simp
next
  case (Cons row a)
  show ?case
  proof (cases i)
    case 0
    with Cons.prems count_list_update[of j row "\<lambda>v. v = 0" v] show ?thesis
      by (simp add: buried_count_def)
  next
    case (Suc k)
    with Cons.prems Cons.IH[of k] show ?thesis
      by (simp add: buried_count_def)
  qed
qed

lemma norm_index_less: "norm_index n i = Some k \<Longrightarrow> k < n"
  by (auto simp: norm_index_def split: if_splits)

lemma index2_bounds: "index2 a r c = Some (i, j) \<Longrightarrow> i < length a \<and> j < length (a ! i)"
  by (auto simp: index2_def split: option.splits dest: norm_index_less)

lemma setitem_dig_less:
  assumes "getitem a r c = Inr 0" "setitem a r c 1 = Inr b"
  shows "buried_count b < buried_count a"
proof -
  from assms obtain i j where ij: "index2 a r c = Some (i, j)" "a ! i ! j = 0"
    "b = a[i := (a ! i)[j := 1]]"
    by (auto simp: getitem_def setitem_def split: option.splits)
  from index2_bounds[OF ij(1)] buried_count_update_eq[of i a j 1] ij show ?thesis
    by simp
qed

lemma dig_dom_buried_le:
  "dig_dig_each_dom (Inl (r, c, s)) \<Longrightarrow> dig r c s = (x, s') \<Longrightarrow>
     buried_count (field_map s') \<le> buried_count (field_map s)"
  "dig_dig_each_dom (Inr (locs, s)) \<Longrightarrow> dig_each locs s = (x, s') \<Longrightarrow>
     buried_count (field_map s') \<le> buried_count (field_map s)"
proof (induction r c s and locs s arbitrary: x s' and x s' rule: dig_dig_each.pinduct)
  case (1 r c s)
  show ?case
  proof (cases "getitem (field_map s) r c")
    case (Inl e)
    with 1 show ?thesis by (auto simp add: dig.psimps)
  next
    case (Inr v)
    show ?thesis
    proof (cases "v = 0")
      case False
      with 1 Inr show ?thesis by (auto simp add: dig.psimps)
    next
      case True
      show ?thesis
      proof (cases "setitem (field_map s) r c 1")
        case (Inl e)
        with 1 Inr True show ?thesis by (auto simp add: dig.psimps)
      next
        case fm: (Inr fm)
        from Inr True fm have less: "buried_count fm < buried_count (field_map s)"
          using setitem_dig_less by blast
        show ?thesis
        proof (cases "getitem (field s) r c")
          case (Inl e)
          with 1 Inr True fm less show ?thesis by (auto simp add: dig.psimps)
        next
          case f: (Inr f)
          consider "f = -1" | "f \<noteq> -1" "f = 0" | "f \<noteq> -1" "f \<noteq> 0" by blast
          then show ?thesis
          proof cases
            case 1
            with "1.prems" "1.hyps" Inr True fm f less show ?thesis
              by (auto simp add: dig.psimps)
          next
            case 2
            with "1.prems" "1.hyps" Inr True fm f
            have "dig_each (surrounds (s\<lparr>field_map := fm\<rparr>) r c) (s\<lparr>field_map := fm\<rparr>) = (x, s')"
              by (simp add: dig.psimps)
            from "1.IH"[OF Inr True fm f 2 this] less show ?thesis by simp
          next
            case 3
            with "1.prems" "1.hyps" Inr True fm f less show ?thesis
              by (auto simp add: dig.psimps)
          qed
        qed
      qed
    qed
  qed
next
  case (2 s)
  then show ?case by (auto simp add: dig_each.psimps)
next
  case (3 row col locs s)
  obtain y s1 where s1: "dig row col s = (y, s1)" by (cases "dig row col s")
  show ?case
  proof (cases y)
    case None
    with s1 "3.prems" "3.hyps" have "dig_each locs s1 = (x, s')"
      by (simp add: dig_each.psimps)
    from "3.IH"(1)[OF s1] "3.IH"(2)[OF s1[symmetric] None this] show ?thesis by simp
  next
    case (Some e)
    with s1 "3.prems" "3.hyps" have "s' = s1" by (simp add: dig_each.psimps)
    with "3.IH"(1)[OF s1] show ?thesis by simp
  qed
qed

termination dig
proof (relation "(\<lambda>x. case x of Inl (r, c, s) \<Rightarrow> buried_count (field_map s)
                      | Inr (l, s) \<Rightarrow> buried_count (field_map s))
                 <*mlex*> measure (\<lambda>x. case x of Inl _ \<Rightarrow> 0 | Inr (l, s) \<Rightarrow> Suc (length l))",
       goal_cases)
  case 1
  show ?case by (simp add: wf_mlex)
next
  case (2 r c s v fm f)
  then have "buried_count fm < buried_count (field_map s)"
    using setitem_dig_less by blast
  then show ?case by (simp add: mlex_less)
next
  case (3 row col locs s)
  show ?case by (rule mlex_leq) simp_all
next
  case (4 row col locs s x s1)
  from dig_dom_buried_le(1)[OF 4(3) 4(1)[symmetric]] show ?case
    by (intro mlex_leq) simp_all
qed

subsection \<open>The queries \<open>game_lost\<close> and \<open>game_won\<close>\<close>

definition game_lost :: "minefield \<Rightarrow> bool" where
  "game_lost s = game_lost_attr s"

text \<open>\<open>np.count_nonzero(self.field_map == 1)\<close>\<close>

definition dug_count :: "array2 \<Rightarrow> nat" where
  "dug_count a = length (filter (\<lambda>v. v = 1) (concat a))"

text \<open>
  The property \<open>game_won\<close> writes \<open>_game_won\<close> and returns it, so it yields the
  returned boolean and the instance after the query.
\<close>

definition game_won :: "minefield \<Rightarrow> bool \<times> minefield" where
  "game_won s =
     (let s1 = s\<lparr>game_won_attr := Some False\<rparr> in
      if \<not> game_lost s1 then
        if int (dug_count (field_map s1)) = height s1 * width s1 - mine_amnt s1
        then (True, s1\<lparr>game_won_attr := Some True\<rparr>)
        else (False, s1)
      else (False, s1))"

subsection \<open>Construction: \<open>__init__\<close>, \<open>__create_field\<close>, \<open>__locate_mines\<close>\<close>

definition diff_mode :: "string \<rightharpoonup> int \<times> int \<times> int" where
  "diff_mode = [''EASY'' \<mapsto> (10, 8, 8), ''MED'' \<mapsto> (40, 15, 15), ''HARD'' \<mapsto> (40, 30, 16)]"

text \<open>
  \<open>np.random.shuffle\<close> rearranges the flat array in place. The random choice is a
  parameter: \<open>perm\<close> lists, for each position of the result, the position of the
  input that lands there. It is a shuffle when \<open>perm\<close> is a permutation of the
  positions.
\<close>

definition shuffle :: "nat list \<Rightarrow> int list \<Rightarrow> int list" where
  "shuffle perm xs = map (\<lambda>i. xs ! i) perm"

definition is_perm :: "nat list \<Rightarrow> nat \<Rightarrow> bool" where
  "is_perm perm n \<longleftrightarrow> mset perm = mset [0..<n]"

text \<open>\<open>np.reshape\<close> of a flat array to \<open>h\<close> rows of \<open>w\<close> entries, row-major.\<close>

definition reshape :: "int list \<Rightarrow> nat \<Rightarrow> nat \<Rightarrow> array2" where
  "reshape xs h w = map (\<lambda>i. take w (drop (i * w) xs)) [0..<h]"

text \<open>
  The slice assignment \<open>field[:mine_amnt] = np.full(mine_amnt, -1)\<close> raises
  \<open>ValueError\<close> when the slice is shorter than \<open>mine_amnt\<close>. The dimensions come
  from \<open>diff_mode\<close>, whose entries are all positive.
\<close>

definition create_field :: "nat list \<Rightarrow> minefield \<Rightarrow> error + minefield" where
  "create_field perm s =
     (let n = nat (height s * width s);
          m = nat (mine_amnt s);
          zeros = replicate n (0::int)
      in if m \<le> n then
           Inr (s\<lparr>field := reshape (shuffle perm (replicate m (-1) @ drop m zeros))
                              (nat (height s)) (nat (width s))\<rparr>)
         else Inl ValueError)"

text \<open>\<open>np.column_stack(np.nonzero(a))\<close>: the locations of the non-zero entries, row-major.\<close>

definition nonzero :: "array2 \<Rightarrow> (int \<times> int) list" where
  "nonzero a =
     concat (map (\<lambda>i. map (\<lambda>j. (int i, int j))
                         (filter (\<lambda>j. a ! i ! j \<noteq> 0) [0..<length (a ! i)]))
                 [0..<length a])"

text \<open>The inner loop of \<open>__locate_mines\<close>: add one to every surrounding non-mine entry.\<close>

fun add_each :: "(int \<times> int) list \<Rightarrow> array2 \<Rightarrow> error + array2" where
  "add_each [] a = Inr a"
| "add_each ((row, col) # locs) a =
     (case getitem a row col of
        Inl e \<Rightarrow> Inl e
      | Inr v \<Rightarrow>
          if v \<noteq> -1 then
            (case setitem a row col (v + 1) of
               Inl e \<Rightarrow> Inl e
             | Inr a' \<Rightarrow> add_each locs a')
          else add_each locs a)"

text \<open>The outer loop of \<open>__locate_mines\<close>, over the mine locations.\<close>

fun locate_each :: "(int \<times> int) list \<Rightarrow> minefield \<Rightarrow> error + minefield" where
  "locate_each [] s = Inr s"
| "locate_each ((m_row, m_col) # mine_locs) s =
     (case add_each (surrounds s m_row m_col) (field s) of
        Inl e \<Rightarrow> Inl e
      | Inr a \<Rightarrow> locate_each mine_locs (s\<lparr>field := a\<rparr>))"

definition locate_mines :: "minefield \<Rightarrow> error + minefield" where
  "locate_mines s = locate_each (nonzero (field s)) s"

text \<open>
  The instance when \<open>__init__\<close> has assigned \<open>mine_amnt\<close>, \<open>width\<close> and \<open>height\<close>: the
  arrays do not exist yet, and \<open>_game_lost\<close> is the class attribute.
\<close>

definition bare :: "int \<Rightarrow> int \<Rightarrow> int \<Rightarrow> minefield" where
  "bare m w h =
     \<lparr>mine_amnt = m, width = w, height = h, field = [], field_map = [],
      game_lost_attr = False, game_won_attr = None\<rparr>"

definition init :: "string \<Rightarrow> nat list \<Rightarrow> error + minefield" where
  "init mode perm =
     (case diff_mode mode of
        None \<Rightarrow> Inl KeyError
      | Some (m, w, h) \<Rightarrow>
          (case create_field perm (bare m w h) of
             Inl e \<Rightarrow> Inl e
           | Inr s1 \<Rightarrow>
               (case locate_mines s1 of
                  Inl e \<Rightarrow> Inl e
                | Inr s2 \<Rightarrow>
                    Inr (s2\<lparr>field_map :=
                              replicate (nat (height s2)) (replicate (nat (width s2)) 0)\<rparr>))))"

section \<open>Instances as the class keeps them\<close>

text \<open>
  Both arrays of an instance have the shape \<open>(height, width)\<close>. Locations are read
  with \<open>at\<close> and written with \<open>put\<close>; both are meant for locations within bounds.
\<close>

definition shaped :: "nat \<Rightarrow> nat \<Rightarrow> array2 \<Rightarrow> bool" where
  "shaped h w a \<longleftrightarrow> length a = h \<and> list_all (\<lambda>row. length row = w) a"

definition well_shaped :: "minefield \<Rightarrow> bool" where
  "well_shaped s \<longleftrightarrow>
     0 \<le> height s \<and> 0 \<le> width s
     \<and> shaped (nat (height s)) (nat (width s)) (field s)
     \<and> shaped (nat (height s)) (nat (width s)) (field_map s)"

definition in_bounds :: "minefield \<Rightarrow> int \<Rightarrow> int \<Rightarrow> bool" where
  "in_bounds s r c \<longleftrightarrow> 0 \<le> r \<and> r < height s \<and> 0 \<le> c \<and> c < width s"

definition at :: "array2 \<Rightarrow> int \<Rightarrow> int \<Rightarrow> int" where
  "at a r c = a ! nat r ! nat c"

definition put :: "array2 \<Rightarrow> int \<Rightarrow> int \<Rightarrow> int \<Rightarrow> array2" where
  "put a r c v = a[nat r := (a ! nat r)[nat c := v]]"

text \<open>The status of a location (0 buried, 1 dug, 2 flagged) and what lies there.\<close>

definition status :: "minefield \<Rightarrow> int \<Rightarrow> int \<Rightarrow> int" where
  "status s r c = at (field_map s) r c"

definition cell :: "minefield \<Rightarrow> int \<Rightarrow> int \<Rightarrow> int" where
  "cell s r c = at (field s) r c"

section \<open>Reading and writing within bounds\<close>

lemma shaped_row: "shaped h w a \<Longrightarrow> i < h \<Longrightarrow> length (a ! i) = w"
  by (auto simp: shaped_def list_all_length)

lemma shaped_length: "shaped h w a \<Longrightarrow> length a = h"
  by (simp add: shaped_def)

lemma norm_index_in: "0 \<le> i \<Longrightarrow> i < int n \<Longrightarrow> norm_index n i = Some (nat i)"
  by (simp add: norm_index_def)

lemma index2_in:
  assumes "shaped h w a" "0 \<le> r" "r < int h" "0 \<le> c" "c < int w"
  shows "index2 a r c = Some (nat r, nat c)"
proof -
  from assms have "norm_index (length a) r = Some (nat r)"
    by (simp add: norm_index_in shaped_length)
  moreover from assms have "length (a ! nat r) = w"
    by (intro shaped_row[of h w a]) auto
  ultimately show ?thesis using assms by (simp add: index2_def norm_index_in)
qed

lemma getitem_in:
  "shaped h w a \<Longrightarrow> 0 \<le> r \<Longrightarrow> r < int h \<Longrightarrow> 0 \<le> c \<Longrightarrow> c < int w \<Longrightarrow>
     getitem a r c = Inr (at a r c)"
  by (simp add: getitem_def index2_in at_def)

lemma setitem_in:
  "shaped h w a \<Longrightarrow> 0 \<le> r \<Longrightarrow> r < int h \<Longrightarrow> 0 \<le> c \<Longrightarrow> c < int w \<Longrightarrow>
     setitem a r c v = Inr (put a r c v)"
  by (simp add: setitem_def index2_in put_def)

lemma shaped_put: "shaped h w a \<Longrightarrow> shaped h w (put a r c v)"
  by (cases "nat r < length a") (auto simp: shaped_def put_def list_all_length nth_list_update)

lemma at_put:
  assumes "shaped h w a" "0 \<le> r" "r < int h" "0 \<le> c" "c < int w" "0 \<le> r'" "0 \<le> c'"
  shows "at (put a r c v) r' c' = (if r' = r \<and> c' = c then v else at a r' c')"
proof -
  from assms have len: "nat r < length a" "nat c < length (a ! nat r)"
    by (auto simp: shaped_length shaped_row[of h w a])
  from assms have eq: "nat r' = nat r \<longleftrightarrow> r' = r" "nat c' = nat c \<longleftrightarrow> c' = c" by auto
  show ?thesis using len eq by (auto simp: at_def put_def nth_list_update)
qed

text \<open>The same, for the arrays of a well-shaped instance.\<close>

lemma getitem_field_map:
  "well_shaped s \<Longrightarrow> in_bounds s r c \<Longrightarrow> getitem (field_map s) r c = Inr (status s r c)"
  unfolding well_shaped_def in_bounds_def status_def
  by (intro getitem_in[of "nat (height s)" "nat (width s)"]) auto

lemma getitem_field:
  "well_shaped s \<Longrightarrow> in_bounds s r c \<Longrightarrow> getitem (field s) r c = Inr (cell s r c)"
  unfolding well_shaped_def in_bounds_def cell_def
  by (intro getitem_in[of "nat (height s)" "nat (width s)"]) auto

lemma setitem_field_map:
  "well_shaped s \<Longrightarrow> in_bounds s r c \<Longrightarrow> setitem (field_map s) r c v = Inr (put (field_map s) r c v)"
  unfolding well_shaped_def in_bounds_def
  by (intro setitem_in[of "nat (height s)" "nat (width s)"]) auto

lemma well_shaped_put:
  "well_shaped s \<Longrightarrow> well_shaped (s\<lparr>field_map := put (field_map s) r c v\<rparr>)"
  by (simp add: well_shaped_def shaped_put)

lemma status_put:
  "well_shaped s \<Longrightarrow> in_bounds s r c \<Longrightarrow> in_bounds s r' c' \<Longrightarrow>
     status (s\<lparr>field_map := put (field_map s) r c v\<rparr>) r' c'
       = (if r' = r \<and> c' = c then v else status s r' c')"
  unfolding well_shaped_def in_bounds_def status_def
  by (simp add: at_put[of "nat (height s)" "nat (width s)"])

text \<open>Counting entries after one entry is written.\<close>

lemma count_concat_update:
  "i < length a \<Longrightarrow> j < length (a ! i) \<Longrightarrow>
   length (filter P (concat (a[i := (a ! i)[j := v]]))) + (if P (a ! i ! j) then 1 else 0)
     = length (filter P (concat a)) + (if P v then 1 else 0)"
proof (induction a arbitrary: i)
  case Nil
  then show ?case by simp
next
  case (Cons row a)
  show ?case
  proof (cases i)
    case 0
    with Cons.prems count_list_update[of j row P v] show ?thesis by simp
  next
    case (Suc k)
    with Cons.prems Cons.IH[of k] show ?thesis by simp
  qed
qed

lemma dug_count_setitem:
  assumes "getitem a r c = Inr u" "setitem a r c v = Inr b" "u \<noteq> 1" "v \<noteq> 1"
  shows "dug_count b = dug_count a"
proof -
  from assms obtain i j where ij: "index2 a r c = Some (i, j)" "a ! i ! j = u"
    "b = a[i := (a ! i)[j := v]]"
    by (auto simp: getitem_def setitem_def split: option.splits)
  from index2_bounds[OF ij(1)] count_concat_update[of i a j "\<lambda>v. v = 1" v] ij assms(3,4)
  show ?thesis by (simp add: dug_count_def)
qed

lemma flag_dug_count: "dug_count (field_map (snd (flag r c s))) = dug_count (field_map s)"
  by (auto simp: flag_def dug_count_setitem split: sum.splits)

lemma flag_frame:
  "field (snd (flag r c s)) = field s"
  "height (snd (flag r c s)) = height s"
  "width (snd (flag r c s)) = width s"
  "mine_amnt (snd (flag r c s)) = mine_amnt s"
  "game_lost_attr (snd (flag r c s)) = game_lost_attr s"
  "game_won_attr (snd (flag r c s)) = game_won_attr s"
  by (auto simp: flag_def split: sum.splits)

section \<open>What one call does\<close>

declare dig.simps [simp del]

text \<open>
  The indices numpy accepts on an instance, and the location a negative one stands for.
\<close>

definition valid_index :: "minefield \<Rightarrow> int \<Rightarrow> int \<Rightarrow> bool" where
  "valid_index s r c \<longleftrightarrow> - height s \<le> r \<and> r < height s \<and> - width s \<le> c \<and> c < width s"

definition wrap :: "int \<Rightarrow> int \<Rightarrow> int" where
  "wrap n i = (if i < 0 then i + n else i)"

lemma surrounds_upd [simp]:
  "surrounds (s\<lparr>field_map := fm\<rparr>) r c = surrounds s r c"
  "surrounds (s\<lparr>game_won_attr := x\<rparr>) r c = surrounds s r c"
  "surrounds (s\<lparr>game_lost_attr := y\<rparr>) r c = surrounds s r c"
  by (simp_all add: surrounds_def)

lemma in_bounds_upd [simp]:
  "in_bounds (s\<lparr>field_map := fm\<rparr>) r c = in_bounds s r c"
  "in_bounds (s\<lparr>game_won_attr := x\<rparr>) r c = in_bounds s r c"
  "in_bounds (s\<lparr>game_lost_attr := y\<rparr>) r c = in_bounds s r c"
  by (simp_all add: in_bounds_def)

lemma cell_upd [simp]:
  "cell (s\<lparr>field_map := fm\<rparr>) r c = cell s r c"
  "cell (s\<lparr>game_won_attr := x\<rparr>) r c = cell s r c"
  "cell (s\<lparr>game_lost_attr := y\<rparr>) r c = cell s r c"
  by (simp_all add: cell_def)

lemma status_upd [simp]:
  "status (s\<lparr>game_won_attr := x\<rparr>) r c = status s r c"
  "status (s\<lparr>game_lost_attr := y\<rparr>) r c = status s r c"
  by (simp_all add: status_def)

lemma well_shaped_upd [simp]:
  "well_shaped (s\<lparr>game_won_attr := x\<rparr>) = well_shaped s"
  "well_shaped (s\<lparr>game_lost_attr := y\<rparr>) = well_shaped s"
  by (simp_all add: well_shaped_def)

lemma surrounds_in_bounds: "(r', c') \<in> set (surrounds s r c) \<Longrightarrow> in_bounds s r' c'"
  by (auto simp: surrounds_def in_bounds_def)

lemma in_bounds_valid: "in_bounds s r c \<Longrightarrow> valid_index s r c"
  by (auto simp: in_bounds_def valid_index_def)

lemma wrap_in_bounds:
  "valid_index s r c \<Longrightarrow> in_bounds s (wrap (height s) r) (wrap (width s) c)"
  by (auto simp: in_bounds_def valid_index_def wrap_def)

lemma wrap_id: "in_bounds s r c \<Longrightarrow> wrap (height s) r = r \<and> wrap (width s) c = c"
  by (auto simp: in_bounds_def wrap_def)

lemma norm_index_wrap:
  "- int n \<le> i \<Longrightarrow> i < int n \<Longrightarrow> norm_index n i = Some (nat (wrap (int n) i))"
  by (auto simp: norm_index_def wrap_def)

lemma norm_index_None: "i < - int n \<or> int n \<le> i \<Longrightarrow> norm_index n i = None"
  by (auto simp: norm_index_def)

lemma index2_wrap:
  assumes "shaped h w a" "- int h \<le> r" "r < int h" "- int w \<le> c" "c < int w"
  shows "index2 a r c = index2 a (wrap (int h) r) (wrap (int w) c)"
proof -
  let ?r = "wrap (int h) r" and ?c = "wrap (int w) c"
  from assms have b: "0 \<le> ?r" "?r < int h" "0 \<le> ?c" "?c < int w"
    by (auto simp: wrap_def)
  from assms have "norm_index (length a) r = Some (nat ?r)"
    by (simp add: norm_index_wrap shaped_length)
  moreover from assms b have "length (a ! nat ?r) = w"
    by (intro shaped_row[of h w a]) auto
  ultimately have "index2 a r c = Some (nat ?r, nat ?c)"
    using assms by (simp add: index2_def norm_index_wrap)
  with index2_in[OF assms(1) b] show ?thesis by simp
qed

lemma index2_None:
  assumes "shaped h w a" "r < - int h \<or> int h \<le> r \<or> c < - int w \<or> int w \<le> c"
  shows "index2 a r c = None"
proof (cases "norm_index (length a) r")
  case None
  then show ?thesis by (simp add: index2_def)
next
  case (Some i)
  then have "i < h" using assms(1) norm_index_less shaped_length by blast
  then have "length (a ! i) = w" using assms(1) shaped_row by blast
  moreover from Some assms(1) have "\<not> (r < - int h \<or> int h \<le> r)"
    by (auto simp: norm_index_def shaped_length split: if_splits)
  ultimately show ?thesis using Some assms(2) by (simp add: index2_def norm_index_None)
qed

lemma getitem_wrap:
  "shaped h w a \<Longrightarrow> - int h \<le> r \<Longrightarrow> r < int h \<Longrightarrow> - int w \<le> c \<Longrightarrow> c < int w \<Longrightarrow>
     getitem a r c = getitem a (wrap (int h) r) (wrap (int w) c)"
proof -
  assume sh: "shaped h w a" and b: "- int h \<le> r" "r < int h" "- int w \<le> c" "c < int w"
  from b have "0 \<le> wrap (int h) r" "wrap (int h) r < int h"
    "0 \<le> wrap (int w) c" "wrap (int w) c < int w" by (auto simp: wrap_def)
  from index2_in[OF sh this] index2_wrap[OF sh b] show ?thesis by (simp add: getitem_def)
qed

lemma setitem_wrap:
  "shaped h w a \<Longrightarrow> - int h \<le> r \<Longrightarrow> r < int h \<Longrightarrow> - int w \<le> c \<Longrightarrow> c < int w \<Longrightarrow>
     setitem a r c v = setitem a (wrap (int h) r) (wrap (int w) c) v"
proof -
  assume sh: "shaped h w a" and b: "- int h \<le> r" "r < int h" "- int w \<le> c" "c < int w"
  from b have "0 \<le> wrap (int h) r" "wrap (int h) r < int h"
    "0 \<le> wrap (int w) c" "wrap (int w) c < int w" by (auto simp: wrap_def)
  from index2_in[OF sh this] index2_wrap[OF sh b] show ?thesis by (simp add: setitem_def)
qed

lemma getitem_field_map_valid:
  assumes "well_shaped s" "valid_index s r c"
  shows "getitem (field_map s) r c = Inr (status s (wrap (height s) r) (wrap (width s) c))"
proof -
  from assms have "getitem (field_map s) r c
      = getitem (field_map s) (wrap (int (nat (height s))) r) (wrap (int (nat (width s))) c)"
    unfolding well_shaped_def valid_index_def
    by (intro getitem_wrap[of "nat (height s)" "nat (width s)"]) auto
  with assms show ?thesis
    by (simp add: getitem_field_map wrap_in_bounds well_shaped_def)
qed

lemma getitem_field_valid:
  assumes "well_shaped s" "valid_index s r c"
  shows "getitem (field s) r c = Inr (cell s (wrap (height s) r) (wrap (width s) c))"
proof -
  from assms have "getitem (field s) r c
      = getitem (field s) (wrap (int (nat (height s))) r) (wrap (int (nat (width s))) c)"
    unfolding well_shaped_def valid_index_def
    by (intro getitem_wrap[of "nat (height s)" "nat (width s)"]) auto
  with assms show ?thesis
    by (simp add: getitem_field wrap_in_bounds well_shaped_def)
qed

lemma setitem_field_map_valid:
  assumes "well_shaped s" "valid_index s r c"
  shows "setitem (field_map s) r c v
           = Inr (put (field_map s) (wrap (height s) r) (wrap (width s) c) v)"
proof -
  from assms have "setitem (field_map s) r c v
      = setitem (field_map s) (wrap (int (nat (height s))) r) (wrap (int (nat (width s))) c) v"
    unfolding well_shaped_def valid_index_def
    by (intro setitem_wrap[of "nat (height s)" "nat (width s)"]) auto
  with assms show ?thesis
    by (simp add: setitem_field_map wrap_in_bounds well_shaped_def)
qed

lemma getitem_field_map_None:
  assumes "well_shaped s" "\<not> valid_index s r c"
  shows "getitem (field_map s) r c = Inl (index_exception r c)"
proof -
  from assms have "index2 (field_map s) r c = None"
    unfolding well_shaped_def valid_index_def
    by (intro index2_None[of "nat (height s)" "nat (width s)"]) auto
  then show ?thesis by (simp add: getitem_def)
qed

text \<open>What \<open>dig\<close> and \<open>flag\<close> do at a valid index of a well-shaped instance.\<close>

lemma dig_valid:
  assumes "well_shaped s" "valid_index s r c"
  shows "dig r c s =
     (let r' = wrap (height s) r; c' = wrap (width s) c in
      if status s r' c' = 0 then
        if cell s r' c' = -1
        then (None, s\<lparr>field_map := put (field_map s) r' c' 1, game_lost_attr := True\<rparr>)
        else if cell s r' c' = 0
        then dig_each (surrounds s r c) (s\<lparr>field_map := put (field_map s) r' c' 1\<rparr>)
        else (None, s\<lparr>field_map := put (field_map s) r' c' 1\<rparr>)
      else (None, s))"
  by (subst dig.simps)
     (simp add: getitem_field_map_valid[OF assms] getitem_field_valid[OF assms]
        setitem_field_map_valid[OF assms] Let_def)

lemma dig_in:
  assumes "well_shaped s" "in_bounds s r c"
  shows "dig r c s =
     (if status s r c = 0 then
        if cell s r c = -1
        then (None, s\<lparr>field_map := put (field_map s) r c 1, game_lost_attr := True\<rparr>)
        else if cell s r c = 0
        then dig_each (surrounds s r c) (s\<lparr>field_map := put (field_map s) r c 1\<rparr>)
        else (None, s\<lparr>field_map := put (field_map s) r c 1\<rparr>)
      else (None, s))"
  using dig_valid[OF assms(1) in_bounds_valid[OF assms(2)]] wrap_id[OF assms(2)]
  by (simp add: Let_def)

lemma flag_valid:
  assumes "well_shaped s" "valid_index s r c"
  shows "flag r c s =
     (let r' = wrap (height s) r; c' = wrap (width s) c in
      if status s r' c' = 0 then (None, s\<lparr>field_map := put (field_map s) r' c' 2\<rparr>)
      else if status s r' c' = 2 then (None, s\<lparr>field_map := put (field_map s) r' c' 0\<rparr>)
      else (None, s))"
  by (simp add: flag_def getitem_field_map_valid[OF assms]
        setitem_field_map_valid[OF assms] Let_def)

lemma flag_in:
  assumes "well_shaped s" "in_bounds s r c"
  shows "flag r c s =
     (if status s r c = 0 then (None, s\<lparr>field_map := put (field_map s) r c 2\<rparr>)
      else if status s r c = 2 then (None, s\<lparr>field_map := put (field_map s) r c 0\<rparr>)
      else (None, s))"
  using flag_valid[OF assms(1) in_bounds_valid[OF assms(2)]] wrap_id[OF assms(2)]
  by (simp add: Let_def)

section \<open>What the recursion of \<open>dig\<close> keeps\<close>

lemma dig_frame:
  "field (snd (dig r c s)) = field s \<and> height (snd (dig r c s)) = height s
   \<and> width (snd (dig r c s)) = width s \<and> mine_amnt (snd (dig r c s)) = mine_amnt s
   \<and> game_won_attr (snd (dig r c s)) = game_won_attr s
   \<and> (game_lost_attr s \<longrightarrow> game_lost_attr (snd (dig r c s)))"
  "field (snd (dig_each locs s)) = field s \<and> height (snd (dig_each locs s)) = height s
   \<and> width (snd (dig_each locs s)) = width s \<and> mine_amnt (snd (dig_each locs s)) = mine_amnt s
   \<and> game_won_attr (snd (dig_each locs s)) = game_won_attr s
   \<and> (game_lost_attr s \<longrightarrow> game_lost_attr (snd (dig_each locs s)))"
proof (induction r c s and locs s rule: dig_dig_each.induct)
  case (1 r c s)
  show ?case
    apply (subst dig.simps)+
    using 1 by (auto split: sum.splits)
next
  case (2 s)
  show ?case by simp
next
  case (3 row col locs s)
  obtain x s1 where d: "dig row col s = (x, s1)" by (cases "dig row col s")
  show ?case
  proof (cases x)
    case None
    with d "3.IH"(1) "3.IH"(2)[OF d[symmetric] None] show ?thesis by simp
  next
    case (Some e)
    with d "3.IH"(1) show ?thesis by simp
  qed
qed

lemma dig_won_attr:
  "dig r c (s\<lparr>game_won_attr := x\<rparr>)
     = (fst (dig r c s), (snd (dig r c s))\<lparr>game_won_attr := x\<rparr>)"
  "dig_each locs (s\<lparr>game_won_attr := x\<rparr>)
     = (fst (dig_each locs s), (snd (dig_each locs s))\<lparr>game_won_attr := x\<rparr>)"
proof (induction r c s and locs s rule: dig_dig_each.induct)
  case (1 r c s)
  have sw: "s\<lparr>game_won_attr := x, field_map := fm\<rparr> = s\<lparr>field_map := fm, game_won_attr := x\<rparr>"
    for fm by simp
  show ?case
    unfolding dig.simps[of r c s] dig.simps[of r c "s\<lparr>game_won_attr := x\<rparr>"]
    using 1 by (auto split: sum.splits simp: sw)
next
  case (2 s)
  show ?case by simp
next
  case (3 row col locs s)
  obtain y s1 where d: "dig row col s = (y, s1)" by (cases "dig row col s")
  show ?case
  proof (cases y)
    case None
    with d "3.IH"(1) "3.IH"(2)[OF d[symmetric] None] show ?thesis by simp
  next
    case (Some e)
    with d "3.IH"(1) show ?thesis by simp
  qed
qed

text \<open>
  Between two instances of the same dimensions, the only status change is from buried
  to dug.
\<close>

definition grows :: "minefield \<Rightarrow> minefield \<Rightarrow> bool" where
  "grows s s' \<longleftrightarrow>
     (\<forall>r c. in_bounds s r c \<longrightarrow>
        status s' r c = status s r c \<or> (status s r c = 0 \<and> status s' r c = 1))"

lemma grows_refl: "grows s s"
  by (simp add: grows_def)

lemma grows_trans:
  "grows s s1 \<Longrightarrow> grows s1 s2 \<Longrightarrow> height s1 = height s \<Longrightarrow> width s1 = width s \<Longrightarrow> grows s s2"
  unfolding grows_def in_bounds_def by (metis zero_neq_one)

lemma grows_put:
  assumes "well_shaped s" "in_bounds s r c" "status s r c = 0"
  shows "grows s (s\<lparr>field_map := put (field_map s) r c 1\<rparr>)"
  unfolding grows_def using assms by (auto simp: status_put)

lemma grows_lost [simp]: "grows s (s'\<lparr>game_lost_attr := y\<rparr>) = grows s s'"
  by (simp add: grows_def)

lemma dig_ok:
  "well_shaped s \<Longrightarrow> valid_index s r c \<Longrightarrow>
     fst (dig r c s) = None \<and> well_shaped (snd (dig r c s)) \<and> grows s (snd (dig r c s))"
  "well_shaped s \<Longrightarrow> (\<forall>p \<in> set locs. in_bounds s (fst p) (snd p)) \<Longrightarrow>
     fst (dig_each locs s) = None \<and> well_shaped (snd (dig_each locs s))
     \<and> grows s (snd (dig_each locs s))"
proof (induction r c s and locs s rule: dig_dig_each.induct)
  case (1 r c s)
  let ?r = "wrap (height s) r" and ?c = "wrap (width s) c"
  let ?s1 = "s\<lparr>field_map := put (field_map s) ?r ?c 1\<rparr>"
  note wf = "1.prems"(1) and v = "1.prems"(2)
  have inb: "in_bounds s ?r ?c" by (rule wrap_in_bounds[OF v])
  have wf1: "well_shaped ?s1" by (rule well_shaped_put[OF wf])
  show ?case
  proof (cases "status s ?r ?c = 0")
    case False
    then show ?thesis using wf by (simp add: dig_valid[OF wf v] grows_refl Let_def)
  next
    case True
    note g1 = grows_put[OF wf inb True]
    show ?thesis
    proof (cases "cell s ?r ?c = 0")
      case False
      then show ?thesis using True wf1 g1 by (simp add: dig_valid[OF wf v] Let_def)
    next
      case z: True
      have d: "dig r c s = dig_each (surrounds s r c) ?s1"
        using True z by (simp add: dig_valid[OF wf v] Let_def)
      have locs: "\<forall>p \<in> set (surrounds ?s1 r c). in_bounds ?s1 (fst p) (snd p)"
        by (auto dest: surrounds_in_bounds)
      have "fst (dig_each (surrounds ?s1 r c) ?s1) = None
          \<and> well_shaped (snd (dig_each (surrounds ?s1 r c) ?s1))
          \<and> grows ?s1 (snd (dig_each (surrounds ?s1 r c) ?s1))"
      proof (rule "1.IH"[OF _ _ _ _ _ _ wf1 locs])
        show "getitem (field_map s) r c = Inr (status s ?r ?c)"
          by (rule getitem_field_map_valid[OF wf v])
        show "status s ?r ?c = 0" by (rule True)
        show "setitem (field_map s) r c 1 = Inr (put (field_map s) ?r ?c 1)"
          by (rule setitem_field_map_valid[OF wf v])
        show "getitem (field s) r c = Inr (cell s ?r ?c)"
          by (rule getitem_field_valid[OF wf v])
        show "cell s ?r ?c \<noteq> - 1" using z by simp
        show "cell s ?r ?c = 0" by (rule z)
      qed
      then show ?thesis using d g1 by (auto intro: grows_trans[OF g1])
    qed
  qed
next
  case (2 s)
  then show ?case by (simp add: grows_refl)
next
  case (3 row col locs s)
  obtain y s1 where d: "dig row col s = (y, s1)" by (cases "dig row col s")
  from "3.prems" have inb: "in_bounds s row col" by simp
  from "3.IH"(1)[OF "3.prems"(1) in_bounds_valid[OF inb]] d
  have y: "y = None" and wf1: "well_shaped s1" and g1: "grows s s1" by simp_all
  from dig_frame(1)[of row col s] d have hw: "height s1 = height s" "width s1 = width s"
    by simp_all
  from "3.prems"(2) hw have locs: "\<forall>p \<in> set locs. in_bounds s1 (fst p) (snd p)"
    by (simp add: in_bounds_def)
  from "3.IH"(2)[OF d[symmetric] y wf1 locs] d y grows_trans[OF g1 _ hw]
  show ?case by simp
qed

section \<open>The public calls on an instance\<close>

text \<open>
  What a caller can do with an instance: \<open>dig\<close>, \<open>flag\<close> and the two properties.
  \<open>perform\<close> gives the instance after a call, whether or not the call raised.
\<close>

datatype call = Dig int int | Flag int int | Game_won | Game_lost

fun perform :: "call \<Rightarrow> minefield \<Rightarrow> minefield" where
  "perform (Dig r c) s = snd (dig r c s)"
| "perform (Flag r c) s = snd (flag r c s)"
| "perform Game_won s = snd (game_won s)"
| "perform Game_lost s = s"

section \<open>A game on the EASY board\<close>

text \<open>
  One shuffle of the EASY board and the instance \<open>__init__\<close> builds from it, used
  to run the statements below on a concrete game.
\<close>

definition easy_perm :: "nat list" where
  "easy_perm = map (\<lambda>i. (i * 7) mod 64) [0..<64]"

definition easy_game :: minefield where
  "easy_game =
     \<lparr>mine_amnt = 10, width = 8, height = 8,
      field = [[-1, -1, 2, 1, 0, 0, 0, 0],
               [2, 3, -1, 2, 1, 0, 0, 0],
               [0, 1, 2, -1, 2, 1, 0, 0],
               [0, 0, 1, 2, -1, 2, 1, 0],
               [0, 0, 0, 1, 2, -1, 3, 2],
               [0, 0, 0, 0, 1, 2, -1, -1],
               [1, 1, 0, 0, 0, 1, 3, -1],
               [-1, 1, 0, 0, 0, 0, 1, 1]],
      field_map = replicate 8 (replicate 8 0),
      game_lost_attr = False, game_won_attr = None\<rparr>"

lemma easy_game_init: "init ''EASY'' easy_perm = Inr easy_game"
  by code_simp

lemma easy_perm_is_perm: "is_perm easy_perm 64"
  unfolding is_perm_def by code_simp

lemma easy_game_shaped: "well_shaped easy_game"
  by code_simp

section \<open>The claims about \<open>flag\<close>, \<open>game_won\<close> and digging a location that is not buried\<close>

lemma put_same:
  assumes "shaped h w a" "0 \<le> r" "r < int h" "0 \<le> c" "c < int w"
  shows "put (put a r c v) r c (at a r c) = a"
proof -
  from assms have "nat r < length a" by (simp add: shaped_length)
  then show ?thesis by (simp add: put_def at_def list_update_same_conv)
qed

lemma game_won_fst:
  "fst (game_won s) \<longleftrightarrow>
     \<not> game_lost s \<and> int (dug_count (field_map s)) = width s * height s - mine_amnt s"
  by (auto simp: game_won_def game_lost_def Let_def mult.commute)

lemma game_won_snd: "snd (game_won s) = s\<lparr>game_won_attr := Some (fst (game_won s))\<rparr>"
  by (simp add: game_won_def Let_def)

lemma flag_won: "fst (game_won (snd (flag r c s))) = fst (game_won s)"
  by (simp add: game_won_fst flag_dug_count flag_frame game_lost_def)


text \<open>
  Claim C6. At a location within bounds whose status is dug (1) or flagged (2), \<open>dig\<close>
  raises nothing and returns the instance as it was: \<open>field_map\<close>, \<open>game_lost\<close> and
  the value of \<open>game_won\<close> are unchanged.
\<close>

theorem dig_not_buried_noop:
  assumes "well_shaped s" "in_bounds s r c" "status s r c = 1 \<or> status s r c = 2"
  shows "dig r c s = (None, s)
     \<and> field_map (snd (dig r c s)) = field_map s
     \<and> game_lost (snd (dig r c s)) = game_lost s
     \<and> fst (game_won (snd (dig r c s))) = fst (game_won s)"
proof -
  from assms(3) have "status s r c \<noteq> 0" by auto
  then have "dig r c s = (None, s)" by (simp add: dig_in[OF assms(1,2)])
  then show ?thesis by simp
qed

theorem dig_not_buried_noop_witness:
  "well_shaped (snd (flag 0 0 easy_game)) \<and> in_bounds (snd (flag 0 0 easy_game)) 0 0
   \<and> status (snd (flag 0 0 easy_game)) 0 0 = 2
   \<and> dig 0 0 (snd (flag 0 0 easy_game)) = (None, snd (flag 0 0 easy_game))
   \<and> well_shaped (snd (dig 0 2 easy_game)) \<and> in_bounds (snd (dig 0 2 easy_game)) 0 2
   \<and> status (snd (dig 0 2 easy_game)) 0 2 = 1
   \<and> dig 0 2 (snd (dig 0 2 easy_game)) = (None, snd (dig 0 2 easy_game))"
proof -
  have a: "well_shaped (snd (flag 0 0 easy_game))" by code_simp
  have b: "in_bounds (snd (flag 0 0 easy_game)) 0 0" by code_simp
  have c: "status (snd (flag 0 0 easy_game)) 0 0 = 2" by code_simp
  have a': "well_shaped (snd (dig 0 2 easy_game))" by code_simp
  have b': "in_bounds (snd (dig 0 2 easy_game)) 0 2" by code_simp
  have c': "status (snd (dig 0 2 easy_game)) 0 2 = 1" by code_simp
  from dig_not_buried_noop[OF a b] dig_not_buried_noop[OF a' b'] c a b c' a' b'
  show ?thesis by simp
qed

text \<open>
  Claim C8. At a location within bounds, \<open>flag\<close> raises nothing, turns buried (0) into
  flagged (2) and flagged into buried, and leaves any other status as it is; every
  other location keeps its status, \<open>field\<close>, \<open>game_lost\<close> and the value of \<open>game_won\<close>
  are unchanged; flagging a buried location twice gives back the instance as it was;
  on a dug location the instance is unchanged.
\<close>

theorem flag_toggle:
  assumes "well_shaped s" "in_bounds s r c"
  shows "fst (flag r c s) = None
     \<and> status (snd (flag r c s)) r c
         = (if status s r c = 0 then 2 else if status s r c = 2 then 0 else status s r c)
     \<and> (\<forall>r' c'. in_bounds s r' c' \<and> (r', c') \<noteq> (r, c)
           \<longrightarrow> status (snd (flag r c s)) r' c' = status s r' c')
     \<and> field (snd (flag r c s)) = field s
     \<and> game_lost (snd (flag r c s)) = game_lost s
     \<and> fst (game_won (snd (flag r c s))) = fst (game_won s)
     \<and> (status s r c = 0 \<longrightarrow> snd (flag r c (snd (flag r c s))) = s)
     \<and> (status s r c = 1 \<longrightarrow> snd (flag r c s) = s)"
proof -
  note f = flag_in[OF assms]
  have 1: "fst (flag r c s) = None" by (simp add: f)
  have 2: "status (snd (flag r c s)) r c
         = (if status s r c = 0 then 2 else if status s r c = 2 then 0 else status s r c)"
    using assms by (simp add: f status_put)
  have 3: "\<forall>r' c'. in_bounds s r' c' \<and> (r', c') \<noteq> (r, c)
           \<longrightarrow> status (snd (flag r c s)) r' c' = status s r' c'"
    using assms by (auto simp: f status_put)
  have 4: "field (snd (flag r c s)) = field s"
    and 5: "game_lost (snd (flag r c s)) = game_lost s"
    by (simp_all add: flag_frame game_lost_def)
  have 6: "fst (game_won (snd (flag r c s))) = fst (game_won s)" by (rule flag_won)
  have 7: "status s r c = 0 \<longrightarrow> snd (flag r c (snd (flag r c s))) = s"
  proof
    assume z: "status s r c = 0"
    let ?s1 = "s\<lparr>field_map := put (field_map s) r c 2\<rparr>"
    have s1: "snd (flag r c s) = ?s1" using z by (simp add: f)
    have wf1: "well_shaped ?s1" by (rule well_shaped_put[OF assms(1)])
    have inb1: "in_bounds ?s1 r c" using assms(2) by simp
    have st1: "status ?s1 r c = 2" using assms by (simp add: status_put)
    have "put (put (field_map s) r c 2) r c (at (field_map s) r c) = field_map s"
      using assms unfolding well_shaped_def in_bounds_def
      by (intro put_same[of "nat (height s)" "nat (width s)"]) auto
    with z have "put (put (field_map s) r c 2) r c 0 = field_map s"
      by (simp add: status_def)
    then show "snd (flag r c (snd (flag r c s))) = s"
      unfolding s1 by (simp add: flag_in[OF wf1 inb1] st1)
  qed
  have 8: "status s r c = 1 \<longrightarrow> snd (flag r c s) = s" by (simp add: f)
  from 1 2 3 4 5 6 7 8 show ?thesis by blast
qed

theorem flag_toggle_witness:
  "well_shaped easy_game \<and> in_bounds easy_game 2 5 \<and> status easy_game 2 5 = 0
   \<and> fst (flag 2 5 easy_game) = None
   \<and> status (snd (flag 2 5 easy_game)) 2 5 = 2
   \<and> status (snd (flag 2 5 easy_game)) 2 6 = status easy_game 2 6
   \<and> snd (flag 2 5 (snd (flag 2 5 easy_game))) = easy_game
   \<and> well_shaped (snd (dig 0 2 easy_game)) \<and> in_bounds (snd (dig 0 2 easy_game)) 0 2
   \<and> status (snd (dig 0 2 easy_game)) 0 2 = 1
   \<and> snd (flag 0 2 (snd (dig 0 2 easy_game))) = snd (dig 0 2 easy_game)"
proof -
  have a: "well_shaped easy_game" by (rule easy_game_shaped)
  have b: "in_bounds easy_game 2 5" "in_bounds easy_game 2 6" by code_simp+
  have c: "status easy_game 2 5 = 0" by code_simp
  have a': "well_shaped (snd (dig 0 2 easy_game))" by code_simp
  have b': "in_bounds (snd (dig 0 2 easy_game)) 0 2" by code_simp
  have c': "status (snd (dig 0 2 easy_game)) 0 2 = 1" by code_simp
  from flag_toggle[OF a b(1)] flag_toggle[OF a' b'] a b c a' b' c' show ?thesis by simp
qed

section \<open>The claims about the cached flag, digging a mine, and indices out of bounds\<close>

lemma flag_won_attr:
  "flag r c (s\<lparr>game_won_attr := x\<rparr>)
     = (fst (flag r c s), (snd (flag r c s))\<lparr>game_won_attr := x\<rparr>)"
  by (auto simp: flag_def split: sum.splits)

lemma game_won_won_attr: "game_won (s\<lparr>game_won_attr := x\<rparr>) = game_won s"
  by (simp add: game_won_def Let_def game_lost_def)

text \<open>
  Claim C10. The \<open>game_won\<close> query changes nothing of the instance but the attribute
  \<open>_game_won\<close>, into which it writes the value it returns. No call reads that
  attribute: \<open>game_won\<close> overwrites it before it looks at anything, \<open>game_lost\<close> does
  not depend on it, and \<open>dig\<close> and \<open>flag\<close> raise the same and do the same to the rest
  of the instance whatever it holds.
\<close>

theorem game_won_frame:
  "snd (game_won s) = s\<lparr>game_won_attr := Some (fst (game_won s))\<rparr>
   \<and> game_won (s\<lparr>game_won_attr := x\<rparr>) = game_won s
   \<and> game_lost (s\<lparr>game_won_attr := x\<rparr>) = game_lost s
   \<and> dig r c (s\<lparr>game_won_attr := x\<rparr>)
       = (fst (dig r c s), (snd (dig r c s))\<lparr>game_won_attr := x\<rparr>)
   \<and> flag r c (s\<lparr>game_won_attr := x\<rparr>)
       = (fst (flag r c s), (snd (flag r c s))\<lparr>game_won_attr := x\<rparr>)"
  using game_won_snd[of s]
  by (simp add: game_lost_def game_won_won_attr dig_won_attr(1) flag_won_attr)

lemma perform_lost: "game_lost s \<Longrightarrow> game_lost (perform k s)"
  by (cases k) (simp_all add: game_lost_def dig_frame flag_frame game_won_snd)

lemma fold_perform_lost: "game_lost s \<Longrightarrow> game_lost (fold perform calls s)"
  by (induction calls arbitrary: s) (simp_all add: perform_lost)

text \<open>
  Claim C5. At a location within bounds that is buried and holds a mine, \<open>dig\<close> raises
  nothing, sets the status of that location to dug, makes \<open>game_lost\<close> true, and leaves
  the status of every other location as it was; and after any further sequence of
  calls on the instance \<open>game_lost\<close> is still true.
\<close>

theorem dig_mine:
  assumes "well_shaped s" "in_bounds s r c" "status s r c = 0" "cell s r c = -1"
  shows "fst (dig r c s) = None
     \<and> status (snd (dig r c s)) r c = 1
     \<and> game_lost (snd (dig r c s))
     \<and> (\<forall>r' c'. in_bounds s r' c' \<and> (r', c') \<noteq> (r, c)
           \<longrightarrow> status (snd (dig r c s)) r' c' = status s r' c')
     \<and> (\<forall>calls. game_lost (fold perform calls (snd (dig r c s))))"
proof -
  have d: "dig r c s = (None, s\<lparr>field_map := put (field_map s) r c 1, game_lost_attr := True\<rparr>)"
    using assms(3,4) by (simp add: dig_in[OF assms(1,2)])
  have 1: "fst (dig r c s) = None" by (simp add: d)
  have 2: "status (snd (dig r c s)) r c = 1"
    using assms(1,2) by (simp add: d status_put)
  have 3: "game_lost (snd (dig r c s))" by (simp add: d game_lost_def)
  have 4: "\<forall>r' c'. in_bounds s r' c' \<and> (r', c') \<noteq> (r, c)
           \<longrightarrow> status (snd (dig r c s)) r' c' = status s r' c'"
    using assms(1,2) by (auto simp: d status_put)
  have 5: "\<forall>calls. game_lost (fold perform calls (snd (dig r c s)))"
    using 3 by (simp add: fold_perform_lost)
  from 1 2 3 4 5 show ?thesis by blast
qed

theorem dig_mine_witness:
  "well_shaped easy_game \<and> in_bounds easy_game 1 2 \<and> status easy_game 1 2 = 0
   \<and> cell easy_game 1 2 = -1
   \<and> fst (dig 1 2 easy_game) = None
   \<and> status (snd (dig 1 2 easy_game)) 1 2 = 1
   \<and> game_lost (snd (dig 1 2 easy_game))
   \<and> status (snd (dig 1 2 easy_game)) 1 3 = status easy_game 1 3
   \<and> game_lost (fold perform [Flag 0 0, Dig 7 7, Game_won, Game_lost]
        (snd (dig 1 2 easy_game)))"
proof -
  have a: "well_shaped easy_game" by (rule easy_game_shaped)
  have b: "in_bounds easy_game 1 2" "in_bounds easy_game 1 3" by code_simp+
  have c: "status easy_game 1 2 = 0" "cell easy_game 1 2 = -1" by code_simp+
  note m = dig_mine[OF a b(1) c]
  from m have 1: "fst (dig 1 2 easy_game) = None" "status (snd (dig 1 2 easy_game)) 1 2 = 1"
    "game_lost (snd (dig 1 2 easy_game))" by simp_all
  from m b(2) have 2: "status (snd (dig 1 2 easy_game)) 1 3 = status easy_game 1 3"
    by simp
  from m have 3: "game_lost (fold perform [Flag 0 0, Dig 7 7, Game_won, Game_lost]
        (snd (dig 1 2 easy_game)))" by blast
  from a b c 1 2 3 show ?thesis by blast
qed

text \<open>
  Claim C4 says that \<open>dig\<close> and \<open>flag\<close> signal every coordinate outside
  \<open>[0, height) \<times> [0, width)\<close> and leave the state unchanged. The methods have no
  bounds test of their own; numpy indexing decides, and it takes a negative index
  down to \<open>-height\<close> (or \<open>-width\<close>) as counting from the end. On the EASY game
  \<open>dig(-1, 0)\<close> raises nothing, digs the mine at row 7 and loses the game, and
  \<open>flag(-1, 0)\<close> flags that location.
\<close>

theorem out_of_bounds_counterexample:
  "\<not> in_bounds easy_game (-1) 0
   \<and> fst (dig (-1) 0 easy_game) = None
   \<and> status (snd (dig (-1) 0 easy_game)) 7 0 = 1
   \<and> status easy_game 7 0 = 0
   \<and> game_lost (snd (dig (-1) 0 easy_game))
   \<and> \<not> game_lost easy_game
   \<and> fst (flag (-1) 0 easy_game) = None
   \<and> status (snd (flag (-1) 0 easy_game)) 7 0 = 2"
  by code_simp

lemma index_exception_cases:
  "index_exception r c = IndexError \<or> index_exception r c = OverflowError"
  by (simp add: index_exception_def intp_error_def)

lemma index_exception_fits:
  "- (2 ^ 63) \<le> r \<Longrightarrow> r < 2 ^ 63 \<Longrightarrow> - (2 ^ 63) \<le> c \<Longrightarrow> c < 2 ^ 63 \<Longrightarrow>
     index_exception r c = IndexError"
  by (simp add: index_exception_def intp_error_def)

text \<open>
  Claim C4, amended. On a well-shaped instance, when the row is outside
  \<open>[-height, height)\<close> or the column is outside \<open>[-width, width)\<close>, \<open>dig\<close> and \<open>flag\<close>
  raise an exception and leave the instance exactly as it was. The exception is
  \<open>IndexError\<close> or \<open>OverflowError\<close>, as \<open>index_exception\<close> says, and it is \<open>IndexError\<close>
  whenever both coordinates fit a signed integer of 64 bits. For every other
  coordinate, negative ones included, neither raises anything.
\<close>

theorem invalid_index_raises:
  assumes "well_shaped s"
  shows "(\<not> valid_index s r c \<longrightarrow>
            dig r c s = (Some (index_exception r c), s)
            \<and> flag r c s = (Some (index_exception r c), s)
            \<and> (index_exception r c = IndexError \<or> index_exception r c = OverflowError)
            \<and> (- (2 ^ 63) \<le> r \<and> r < 2 ^ 63 \<and> - (2 ^ 63) \<le> c \<and> c < 2 ^ 63
                 \<longrightarrow> index_exception r c = IndexError))
       \<and> (valid_index s r c \<longrightarrow> fst (dig r c s) = None \<and> fst (flag r c s) = None)"
proof (cases "valid_index s r c")
  case True
  with dig_ok(1)[OF assms True] flag_valid[OF assms True] show ?thesis
    by (simp add: Let_def)
next
  case False
  from getitem_field_map_None[OF assms False]
  have "dig r c s = (Some (index_exception r c), s)"
    "flag r c s = (Some (index_exception r c), s)"
    by (simp_all add: dig.simps[of r c s] flag_def)
  with False index_exception_cases[of r c] index_exception_fits[of r c] show ?thesis
    by simp
qed

theorem invalid_index_raises_witness:
  "well_shaped easy_game \<and> \<not> valid_index easy_game 8 0 \<and> \<not> valid_index easy_game (-9) 0
   \<and> \<not> valid_index easy_game 0 (-9)
   \<and> \<not> valid_index easy_game 9223372036854775808 0
   \<and> \<not> valid_index easy_game 8 9223372036854775808
   \<and> \<not> valid_index easy_game 18446744073709551616 0
   \<and> valid_index easy_game (-1) 0
   \<and> dig 8 0 easy_game = (Some IndexError, easy_game)
   \<and> flag 8 0 easy_game = (Some IndexError, easy_game)
   \<and> dig (-9) 0 easy_game = (Some IndexError, easy_game)
   \<and> flag 0 (-9) easy_game = (Some IndexError, easy_game)
   \<and> dig 9223372036854775808 0 easy_game = (Some OverflowError, easy_game)
   \<and> flag 8 9223372036854775808 easy_game = (Some OverflowError, easy_game)
   \<and> dig 18446744073709551616 0 easy_game = (Some IndexError, easy_game)
   \<and> fst (dig (-1) 0 easy_game) = None \<and> fst (flag (-1) 0 easy_game) = None"
proof -
  have a: "well_shaped easy_game" by (rule easy_game_shaped)
  have b: "\<not> valid_index easy_game 8 0" "\<not> valid_index easy_game (-9) 0"
    "\<not> valid_index easy_game 0 (-9)" "valid_index easy_game (-1) 0"
    "\<not> valid_index easy_game 9223372036854775808 0"
    "\<not> valid_index easy_game 8 9223372036854775808"
    "\<not> valid_index easy_game 18446744073709551616 0"
    by (simp_all add: valid_index_def easy_game_def)
  have e: "index_exception 8 0 = IndexError" "index_exception (-9) 0 = IndexError"
    "index_exception 0 (-9) = IndexError"
    "index_exception 9223372036854775808 0 = OverflowError"
    "index_exception 8 9223372036854775808 = OverflowError"
    "index_exception 18446744073709551616 0 = IndexError"
    by (simp_all add: index_exception_def intp_error_def)
  from invalid_index_raises[OF a, of 8 0] b(1) e(1)
  have 1: "dig 8 0 easy_game = (Some IndexError, easy_game)"
    "flag 8 0 easy_game = (Some IndexError, easy_game)" by simp_all
  from invalid_index_raises[OF a, of "-9" 0] b(2) e(2)
  have 2: "dig (-9) 0 easy_game = (Some IndexError, easy_game)" by simp
  from invalid_index_raises[OF a, of 0 "-9"] b(3) e(3)
  have 3: "flag 0 (-9) easy_game = (Some IndexError, easy_game)" by simp
  from invalid_index_raises[OF a, of 9223372036854775808 0] b(5) e(4)
  have 4: "dig 9223372036854775808 0 easy_game = (Some OverflowError, easy_game)" by simp
  from invalid_index_raises[OF a, of 8 9223372036854775808] b(6) e(5)
  have 5: "flag 8 9223372036854775808 easy_game = (Some OverflowError, easy_game)" by simp
  from invalid_index_raises[OF a, of 18446744073709551616 0] b(7) e(6)
  have 6: "dig 18446744073709551616 0 easy_game = (Some IndexError, easy_game)" by simp
  from invalid_index_raises[OF a, of "-1" 0] b(4)
  have 7: "fst (dig (-1) 0 easy_game) = None" "fst (flag (-1) 0 easy_game) = None"
    by simp_all
  from a b 1 2 3 4 5 6 7 show ?thesis by blast
qed

section \<open>The locations one call of \<open>dig\<close> sets to dug\<close>

text \<open>
  \<open>dig_log\<close> follows the recursion of \<open>dig\<close> and lists, in order, the arguments of
  every call that found its location buried and executed
  \<open>self.field_map[loc_row, loc_col] = 1\<close>. It is an observation of the run, not part
  of the program: the instance is threaded through \<open>dig\<close> itself.
\<close>

function dig_log :: "int \<Rightarrow> int \<Rightarrow> minefield \<Rightarrow> (int \<times> int) list"
  and dig_each_log :: "(int \<times> int) list \<Rightarrow> minefield \<Rightarrow> (int \<times> int) list" where
  "dig_log loc_row loc_col s =
     (case getitem (field_map s) loc_row loc_col of
        Inl e \<Rightarrow> []
      | Inr v \<Rightarrow>
          if v = 0 then
            (case setitem (field_map s) loc_row loc_col 1 of
               Inl e \<Rightarrow> []
             | Inr fm \<Rightarrow>
                 (loc_row, loc_col) #
                 (case getitem (field s) loc_row loc_col of
                    Inl e \<Rightarrow> []
                  | Inr f \<Rightarrow>
                      if f = -1 then []
                      else if f = 0 then
                        dig_each_log (surrounds (s\<lparr>field_map := fm\<rparr>) loc_row loc_col)
                          (s\<lparr>field_map := fm\<rparr>)
                      else []))
          else [])"
| "dig_each_log [] s = []"
| "dig_each_log ((row, col) # locs) s =
     dig_log row col s @
     (case dig row col s of
        (Some e, s') \<Rightarrow> []
      | (None, s') \<Rightarrow> dig_each_log locs s')"
  by pat_completeness auto

lemma dig_buried_le:
  "buried_count (field_map (snd (dig r c s))) \<le> buried_count (field_map s)"
  "buried_count (field_map (snd (dig_each locs s))) \<le> buried_count (field_map s)"
proof (induction r c s and locs s rule: dig_dig_each.induct)
  case (1 r c s)
  show ?case
  proof (cases "\<exists>fm. getitem (field_map s) r c = Inr 0
        \<and> setitem (field_map s) r c 1 = Inr fm \<and> getitem (field s) r c = Inr 0")
    case True
    then obtain fm where g: "getitem (field_map s) r c = Inr 0"
      and fm: "setitem (field_map s) r c 1 = Inr fm" and f: "getitem (field s) r c = Inr 0"
      by blast
    have "dig r c s = dig_each (surrounds (s\<lparr>field_map := fm\<rparr>) r c) (s\<lparr>field_map := fm\<rparr>)"
      by (simp add: dig.simps[of r c s] g fm f)
    moreover have "buried_count (field_map (snd (dig_each (surrounds (s\<lparr>field_map := fm\<rparr>) r c)
          (s\<lparr>field_map := fm\<rparr>)))) \<le> buried_count fm"
      using "1.IH"[OF g _ fm f] by simp
    moreover have "buried_count fm < buried_count (field_map s)"
      by (rule setitem_dig_less[OF g fm])
    ultimately show ?thesis by simp
  next
    case False
    have le: "buried_count fm \<le> buried_count (field_map s)"
      if "getitem (field_map s) r c = Inr 0" "setitem (field_map s) r c 1 = Inr fm" for fm
      using setitem_dig_less[OF that] by simp
    show ?thesis
      unfolding dig.simps[of r c s] using False by (auto split: sum.splits simp: le)
  qed
next
  case (2 s)
  show ?case by simp
next
  case (3 row col locs s)
  obtain x s1 where d: "dig row col s = (x, s1)" by (cases "dig row col s")
  show ?case
  proof (cases x)
    case None
    with d "3.IH"(1) "3.IH"(2)[OF d[symmetric] None] show ?thesis by simp
  next
    case (Some e)
    with d "3.IH"(1) show ?thesis by simp
  qed
qed

termination dig_log
proof (relation "(\<lambda>x. case x of Inl (r, c, s) \<Rightarrow> buried_count (field_map s)
                      | Inr (l, s) \<Rightarrow> buried_count (field_map s))
                 <*mlex*> measure (\<lambda>x. case x of Inl _ \<Rightarrow> 0 | Inr (l, s) \<Rightarrow> Suc (length l))",
       goal_cases)
  case 1
  show ?case by (simp add: wf_mlex)
next
  case (2 r c s v fm f)
  then have "buried_count fm < buried_count (field_map s)"
    using setitem_dig_less by blast
  then show ?case by (simp add: mlex_less)
next
  case (3 row col locs s)
  show ?case by (rule mlex_leq) simp_all
next
  case (4 row col locs s x s1)
  from dig_buried_le(1)[of row col s] 4(1)[symmetric] show ?case
    by (intro mlex_leq) simp_all
qed

declare dig_log.simps [simp del]

lemma dig_log_in:
  assumes "well_shaped s" "in_bounds s r c"
  shows "dig_log r c s =
     (if status s r c = 0 then
        (r, c) # (if cell s r c = 0
                  then dig_each_log (surrounds s r c) (s\<lparr>field_map := put (field_map s) r c 1\<rparr>)
                  else [])
      else [])"
  by (subst dig_log.simps)
     (simp add: getitem_field_map[OF assms] getitem_field[OF assms] setitem_field_map[OF assms])

text \<open>An induction rule for well-shaped instances and locations within bounds.\<close>

lemma dig_induct_in:
  assumes dig: "\<And>r c s. well_shaped s \<Longrightarrow> in_bounds s r c \<Longrightarrow>
      (status s r c = 0 \<Longrightarrow> cell s r c = 0 \<Longrightarrow>
         Q (surrounds s r c) (s\<lparr>field_map := put (field_map s) r c 1\<rparr>)) \<Longrightarrow> P r c s"
    and nil: "\<And>s. well_shaped s \<Longrightarrow> Q [] s"
    and cons: "\<And>r c locs s. well_shaped s \<Longrightarrow> in_bounds s r c \<Longrightarrow>
      \<forall>p \<in> set locs. in_bounds s (fst p) (snd p) \<Longrightarrow>
      P r c s \<Longrightarrow> Q locs (snd (dig r c s)) \<Longrightarrow> Q ((r, c) # locs) s"
  shows "well_shaped s \<Longrightarrow> in_bounds s r c \<Longrightarrow> P r c s"
    and "well_shaped s \<Longrightarrow> \<forall>p \<in> set locs. in_bounds s (fst p) (snd p) \<Longrightarrow> Q locs s"
proof (induction r c s and locs s rule: dig_dig_each.induct)
  case (1 r c s)
  note wf = "1.prems"(1) and inb = "1.prems"(2)
  let ?s1 = "s\<lparr>field_map := put (field_map s) r c 1\<rparr>"
  show ?case
  proof (rule dig[OF wf inb])
    assume b: "status s r c = 0" and z: "cell s r c = 0"
    have wf1: "well_shaped ?s1" by (rule well_shaped_put[OF wf])
    have locs: "\<forall>p \<in> set (surrounds ?s1 r c). in_bounds ?s1 (fst p) (snd p)"
      by (auto dest: surrounds_in_bounds)
    have "Q (surrounds ?s1 r c) ?s1"
    proof (rule "1.IH"[OF _ _ _ _ _ _ wf1 locs])
      show "getitem (field_map s) r c = Inr (status s r c)"
        by (rule getitem_field_map[OF wf inb])
      show "status s r c = 0" by (rule b)
      show "setitem (field_map s) r c 1 = Inr (put (field_map s) r c 1)"
        by (rule setitem_field_map[OF wf inb])
      show "getitem (field s) r c = Inr (cell s r c)"
        by (rule getitem_field[OF wf inb])
      show "cell s r c \<noteq> - 1" using z by simp
      show "cell s r c = 0" by (rule z)
    qed
    then show "Q (surrounds s r c) ?s1" by simp
  qed
next
  case (2 s)
  then show ?case by (simp add: nil)
next
  case (3 row col locs s)
  note wf = "3.prems"(1)
  from "3.prems"(2) have inb: "in_bounds s row col"
    and rest: "\<forall>p \<in> set locs. in_bounds s (fst p) (snd p)" by simp_all
  obtain y s1 where d: "dig row col s = (y, s1)" by (cases "dig row col s")
  from dig_ok(1)[OF wf in_bounds_valid[OF inb]] d
  have y: "y = None" and wf1: "well_shaped s1" by simp_all
  from dig_frame(1)[of row col s] d have hw: "height s1 = height s" "width s1 = width s"
    by simp_all
  from rest hw have locs1: "\<forall>p \<in> set locs. in_bounds s1 (fst p) (snd p)"
    by (simp add: in_bounds_def)
  have "P row col s" by (rule "3.IH"(1)[OF wf inb])
  moreover have "Q locs (snd (dig row col s))"
    using "3.IH"(2)[OF d[symmetric] y wf1 locs1] d by simp
  ultimately show ?case by (rule cons[OF wf inb rest])
qed

lemma dig_each_Cons_in:
  assumes "well_shaped s" "in_bounds s r c"
  shows "dig_each ((r, c) # locs) s = dig_each locs (snd (dig r c s))"
    and "dig_each_log ((r, c) # locs) s = dig_log r c s @ dig_each_log locs (snd (dig r c s))"
proof -
  obtain y s1 where d: "dig r c s = (y, s1)" by (cases "dig r c s")
  from dig_ok(1)[OF assms(1) in_bounds_valid[OF assms(2)]] d have "y = None" by simp
  with d show "dig_each ((r, c) # locs) s = dig_each locs (snd (dig r c s))"
    and "dig_each_log ((r, c) # locs) s = dig_log r c s @ dig_each_log locs (snd (dig r c s))"
    by simp_all
qed

text \<open>
  \<open>dug_exactly s l s'\<close>: from \<open>s\<close> to \<open>s'\<close> the locations of \<open>l\<close>, each listed once and
  each buried in \<open>s\<close>, became dug, and no other status changed.
\<close>

definition dug_exactly :: "minefield \<Rightarrow> (int \<times> int) list \<Rightarrow> minefield \<Rightarrow> bool" where
  "dug_exactly s l s' \<longleftrightarrow>
     distinct l
     \<and> (\<forall>p \<in> set l. in_bounds s (fst p) (snd p) \<and> status s (fst p) (snd p) = 0
            \<and> status s' (fst p) (snd p) = 1)
     \<and> (\<forall>r c. in_bounds s r c \<longrightarrow> (r, c) \<notin> set l \<longrightarrow> status s' r c = status s r c)"

lemma dug_exactly_Nil: "dug_exactly s [] s"
  by (simp add: dug_exactly_def)

lemma dug_exactly_lost [simp]:
  "dug_exactly s l (s'\<lparr>game_lost_attr := y\<rparr>) = dug_exactly s l s'"
  by (simp add: dug_exactly_def)

lemma dug_exactly_put:
  assumes "well_shaped s" "in_bounds s r c" "status s r c = 0"
  shows "dug_exactly s [(r, c)] (s\<lparr>field_map := put (field_map s) r c 1\<rparr>)"
  unfolding dug_exactly_def using assms by (auto simp: status_put)

lemma dug_exactly_append:
  assumes 1: "dug_exactly s l1 s1" and 2: "dug_exactly s1 l2 s2"
    and hw: "height s1 = height s" "width s1 = width s"
  shows "dug_exactly s (l1 @ l2) s2"
proof -
  have inb: "in_bounds s1 r c = in_bounds s r c" for r c
    by (simp add: in_bounds_def hw)
  have d: "distinct (l1 @ l2)"
  proof -
    have "set l1 \<inter> set l2 = {}"
    proof (rule ccontr)
      assume "set l1 \<inter> set l2 \<noteq> {}"
      then obtain p where "p \<in> set l1" "p \<in> set l2" by blast
      with 1 2 have "status s1 (fst p) (snd p) = 1" "status s1 (fst p) (snd p) = 0"
        by (auto simp: dug_exactly_def)
      then show False by simp
    qed
    with 1 2 show ?thesis by (simp add: dug_exactly_def)
  qed
  have a: "in_bounds s (fst p) (snd p) \<and> status s (fst p) (snd p) = 0
            \<and> status s2 (fst p) (snd p) = 1" if "p \<in> set (l1 @ l2)" for p
  proof (cases "p \<in> set l1")
    case True
    with 1 have p: "in_bounds s (fst p) (snd p)" "status s (fst p) (snd p) = 0"
      "status s1 (fst p) (snd p) = 1" by (auto simp: dug_exactly_def)
    have "p \<notin> set l2"
    proof
      assume "p \<in> set l2"
      with 2 have "status s1 (fst p) (snd p) = 0" by (auto simp: dug_exactly_def)
      with p(3) show False by simp
    qed
    with 2 p(1) inb have "status s2 (fst p) (snd p) = status s1 (fst p) (snd p)"
      unfolding dug_exactly_def by (metis prod.collapse)
    with p show ?thesis by simp
  next
    case False
    with that have p2: "p \<in> set l2" by simp
    with 2 have p: "in_bounds s1 (fst p) (snd p)" "status s1 (fst p) (snd p) = 0"
      "status s2 (fst p) (snd p) = 1" by (auto simp: dug_exactly_def)
    from 1 False p(1) inb have "status s1 (fst p) (snd p) = status s (fst p) (snd p)"
      unfolding dug_exactly_def by (metis prod.collapse)
    with p inb show ?thesis by simp
  qed
  have b: "status s2 r c = status s r c" if "in_bounds s r c" "(r, c) \<notin> set (l1 @ l2)" for r c
  proof -
    from that 1 have "status s1 r c = status s r c" by (simp add: dug_exactly_def)
    moreover from that 2 inb have "status s2 r c = status s1 r c" by (simp add: dug_exactly_def)
    ultimately show ?thesis by simp
  qed
  from d a b show ?thesis unfolding dug_exactly_def by blast
qed

lemma dig_log_dug_exactly:
  shows "well_shaped s \<Longrightarrow> in_bounds s r c \<Longrightarrow>
           dug_exactly s (dig_log r c s) (snd (dig r c s))"
    and "well_shaped s \<Longrightarrow> \<forall>p \<in> set locs. in_bounds s (fst p) (snd p) \<Longrightarrow>
           dug_exactly s (dig_each_log locs s) (snd (dig_each locs s))"
proof -
  let ?P = "\<lambda>r c s. dug_exactly s (dig_log r c s) (snd (dig r c s))"
  let ?Q = "\<lambda>locs s. dug_exactly s (dig_each_log locs s) (snd (dig_each locs s))"
  have d: "?P r c s"
    if wf: "well_shaped s" and inb: "in_bounds s r c"
      and ih: "status s r c = 0 \<Longrightarrow> cell s r c = 0 \<Longrightarrow>
        ?Q (surrounds s r c) (s\<lparr>field_map := put (field_map s) r c 1\<rparr>)"
    for r c s
  proof (cases "status s r c = 0")
    case False
    then show ?thesis by (simp add: dig_in[OF wf inb] dig_log_in[OF wf inb] dug_exactly_Nil)
  next
    case True
    note p = dug_exactly_put[OF wf inb True]
    show ?thesis
    proof (cases "cell s r c = 0")
      case False
      with True p show ?thesis by (simp add: dig_in[OF wf inb] dig_log_in[OF wf inb])
    next
      case z: True
      from dug_exactly_append[OF p ih[OF True z]]
      show ?thesis using True z by (simp add: dig_in[OF wf inb] dig_log_in[OF wf inb])
    qed
  qed
  have n: "?Q [] s" for s by (simp add: dug_exactly_Nil)
  have c: "?Q ((r, c) # locs) s"
    if wf: "well_shaped s" and inb: "in_bounds s r c"
      and "\<forall>p \<in> set locs. in_bounds s (fst p) (snd p)"
      and 1: "?P r c s" and 2: "?Q locs (snd (dig r c s))"
    for r c locs s
    using dug_exactly_append[OF 1 2] dig_frame(1)[of r c s]
    unfolding dig_each_Cons_in[OF wf inb] by simp
  show "well_shaped s \<Longrightarrow> in_bounds s r c \<Longrightarrow>
           dug_exactly s (dig_log r c s) (snd (dig r c s))"
    by (rule dig_induct_in(1)[where P = ?P and Q = ?Q, OF d n c])
  show "well_shaped s \<Longrightarrow> \<forall>p \<in> set locs. in_bounds s (fst p) (snd p) \<Longrightarrow>
           dug_exactly s (dig_each_log locs s) (snd (dig_each locs s))"
    by (rule dig_induct_in(2)[where P = ?P and Q = ?Q, OF d n c])
qed

lemma dig_log_lost:
  shows "well_shaped s \<Longrightarrow> in_bounds s r c \<Longrightarrow>
     game_lost_attr (snd (dig r c s))
       = (game_lost_attr s \<or> (\<exists>p \<in> set (dig_log r c s). cell s (fst p) (snd p) = -1))"
    and "well_shaped s \<Longrightarrow> \<forall>p \<in> set locs. in_bounds s (fst p) (snd p) \<Longrightarrow>
     game_lost_attr (snd (dig_each locs s))
       = (game_lost_attr s \<or> (\<exists>p \<in> set (dig_each_log locs s). cell s (fst p) (snd p) = -1))"
proof -
  let ?P = "\<lambda>r c s. game_lost_attr (snd (dig r c s))
       = (game_lost_attr s \<or> (\<exists>p \<in> set (dig_log r c s). cell s (fst p) (snd p) = -1))"
  let ?Q = "\<lambda>locs s. game_lost_attr (snd (dig_each locs s))
       = (game_lost_attr s \<or> (\<exists>p \<in> set (dig_each_log locs s). cell s (fst p) (snd p) = -1))"
  have d: "?P r c s"
    if wf: "well_shaped s" and inb: "in_bounds s r c"
      and ih: "status s r c = 0 \<Longrightarrow> cell s r c = 0 \<Longrightarrow>
        ?Q (surrounds s r c) (s\<lparr>field_map := put (field_map s) r c 1\<rparr>)"
    for r c s
  proof (cases "status s r c = 0 \<and> cell s r c = 0")
    case True
    with ih show ?thesis by (simp add: dig_in[OF wf inb] dig_log_in[OF wf inb])
  next
    case False
    then show ?thesis by (auto simp add: dig_in[OF wf inb] dig_log_in[OF wf inb])
  qed
  have n: "?Q [] s" for s by simp
  have c: "?Q ((r, c) # locs) s"
    if wf: "well_shaped s" and inb: "in_bounds s r c"
      and "\<forall>p \<in> set locs. in_bounds s (fst p) (snd p)"
      and 1: "?P r c s" and 2: "?Q locs (snd (dig r c s))"
    for r c locs s
  proof -
    have "cell (snd (dig r c s)) = cell s"
      using dig_frame(1)[of r c s] by (simp add: cell_def fun_eq_iff)
    with 1 2 show ?thesis unfolding dig_each_Cons_in[OF wf inb] by auto
  qed
  show "well_shaped s \<Longrightarrow> in_bounds s r c \<Longrightarrow>
     game_lost_attr (snd (dig r c s))
       = (game_lost_attr s \<or> (\<exists>p \<in> set (dig_log r c s). cell s (fst p) (snd p) = -1))"
    by (rule dig_induct_in(1)[where P = ?P and Q = ?Q, OF d n c])
  show "well_shaped s \<Longrightarrow> \<forall>p \<in> set locs. in_bounds s (fst p) (snd p) \<Longrightarrow>
     game_lost_attr (snd (dig_each locs s))
       = (game_lost_attr s \<or> (\<exists>p \<in> set (dig_each_log locs s). cell s (fst p) (snd p) = -1))"
    by (rule dig_induct_in(2)[where P = ?P and Q = ?Q, OF d n c])
qed

section \<open>The claim about the bound on the recursion\<close>

lemma in_bounds_set:
  "{p. in_bounds s (fst p) (snd p)} = {0..<height s} \<times> {0..<width s}"
  by (auto simp: in_bounds_def)

lemma in_bounds_card: "card {p. in_bounds s (fst p) (snd p)} = nat (height s) * nat (width s)"
  by (simp add: in_bounds_set card_cartesian_product)

lemma length_in_bounds:
  assumes "distinct l" "\<forall>p \<in> set l. in_bounds s (fst p) (snd p)" "0 \<le> height s" "0 \<le> width s"
  shows "length l \<le> nat (width s * height s)"
proof -
  have "length l = card (set l)" using assms(1) by (simp add: distinct_card)
  also have "\<dots> \<le> card {p. in_bounds s (fst p) (snd p)}"
  proof (rule card_mono)
    show "finite {p. in_bounds s (fst p) (snd p)}" by (simp add: in_bounds_set)
    show "set l \<subseteq> {p. in_bounds s (fst p) (snd p)}" using assms(2) by blast
  qed
  also have "\<dots> = nat (width s * height s)"
    using assms(3,4) by (simp add: in_bounds_card nat_mult_distrib mult.commute)
  finally show ?thesis .
qed

text \<open>
  Claim C9. On a well-shaped instance and at a location within bounds, the recursion
  of \<open>dig\<close> ends (the function is total, by the termination proof above) without an
  exception. The calls that pass the buried test are at most \<open>width * height\<close>, no
  location is set to dug twice, each location set to dug was buried before the call,
  and every location that is not set to dug, the dug and flagged ones among them,
  keeps its status.
\<close>

theorem dig_visits_once:
  assumes "well_shaped s" "in_bounds s r c"
  shows "fst (dig r c s) = None
     \<and> distinct (dig_log r c s)
     \<and> length (dig_log r c s) \<le> nat (width s * height s)
     \<and> (\<forall>p \<in> set (dig_log r c s).
           in_bounds s (fst p) (snd p) \<and> status s (fst p) (snd p) = 0
           \<and> status (snd (dig r c s)) (fst p) (snd p) = 1)
     \<and> (\<forall>r' c'. in_bounds s r' c' \<and> (r', c') \<notin> set (dig_log r c s)
           \<longrightarrow> status (snd (dig r c s)) r' c' = status s r' c')"
proof -
  note e = dig_log_dug_exactly(1)[OF assms, unfolded dug_exactly_def]
  have 1: "fst (dig r c s) = None"
    using dig_ok(1)[OF assms(1) in_bounds_valid[OF assms(2)]] by simp
  have 2: "distinct (dig_log r c s)" using e by simp
  have 3: "\<forall>p \<in> set (dig_log r c s).
           in_bounds s (fst p) (snd p) \<and> status s (fst p) (snd p) = 0
           \<and> status (snd (dig r c s)) (fst p) (snd p) = 1" using e by simp
  have 4: "\<forall>r' c'. in_bounds s r' c' \<and> (r', c') \<notin> set (dig_log r c s)
           \<longrightarrow> status (snd (dig r c s)) r' c' = status s r' c'" using e by simp
  have 5: "length (dig_log r c s) \<le> nat (width s * height s)"
    using length_in_bounds[OF 2, of s] 3 assms(1) by (simp add: well_shaped_def)
  from 1 2 3 4 5 show ?thesis by blast
qed

theorem dig_visits_once_witness:
  "well_shaped easy_game \<and> in_bounds easy_game 0 7
   \<and> fst (dig 0 7 easy_game) = None
   \<and> distinct (dig_log 0 7 easy_game)
   \<and> length (dig_log 0 7 easy_game) \<le> 64
   \<and> length (dig_log 0 7 easy_game) = 19
   \<and> status (snd (dig 0 7 easy_game)) 7 7 = status easy_game 7 7"
proof -
  have a: "well_shaped easy_game" by (rule easy_game_shaped)
  have b: "in_bounds easy_game 0 7" "in_bounds easy_game 7 7" by code_simp+
  have c: "nat (width easy_game * height easy_game) = 64" by code_simp
  have d: "length (dig_log 0 7 easy_game) = 19" "(7, 7) \<notin> set (dig_log 0 7 easy_game)"
    by code_simp+
  note v = dig_visits_once[OF a b(1)]
  from v have 1: "fst (dig 0 7 easy_game) = None" "distinct (dig_log 0 7 easy_game)"
    by simp_all
  from v c have 2: "length (dig_log 0 7 easy_game) \<le> 64" by simp
  from v b(2) d(2) have 3: "status (snd (dig 0 7 easy_game)) 7 7 = status easy_game 7 7"
    by blast
  from a b 1 2 3 d show ?thesis by blast
qed

section \<open>The claim about the flood fill\<close>

text \<open>
  \<open>flood s r c\<close>: what a call \<open>dig(r, c)\<close> on \<open>s\<close> reaches. The location itself when
  it is buried, and from every reached location whose count is 0 the surrounding
  locations that are buried.
\<close>

inductive_set flood :: "minefield \<Rightarrow> int \<Rightarrow> int \<Rightarrow> (int \<times> int) set"
  for s :: minefield and r :: int and c :: int where
  start: "status s r c = 0 \<Longrightarrow> (r, c) \<in> flood s r c"
| step: "(r1, c1) \<in> flood s r c \<Longrightarrow> cell s r1 c1 = 0 \<Longrightarrow>
         (r2, c2) \<in> set (surrounds s r1 c1) \<Longrightarrow> status s r2 c2 = 0 \<Longrightarrow>
         (r2, c2) \<in> flood s r c"

lemma flood_buried: "(a, b) \<in> flood s r c \<Longrightarrow> status s a b = 0"
  by (induction rule: flood.induct) simp_all

lemma flood_start_buried: "(a, b) \<in> flood s r c \<Longrightarrow> status s r c = 0"
  by (induction rule: flood.induct) simp_all

lemma flood_trans:
  assumes "(r1, c1) \<in> flood s r c" "(a, b) \<in> flood s r1 c1"
  shows "(a, b) \<in> flood s r c"
  using assms(2)
proof (induction rule: flood.induct)
  case start
  show ?case by (rule assms(1))
next
  case (step r2 c2 r3 c3)
  then show ?case by (blast intro: flood.step)
qed

lemma flood_mono:
  assumes g: "grows s s1" and f: "field s1 = field s"
    and hw: "height s1 = height s" "width s1 = width s"
    and inb: "in_bounds s r c" and p: "(a, b) \<in> flood s1 r c"
  shows "(a, b) \<in> flood s r c"
  using p
proof (induction rule: flood.induct)
  case start
  with g inb have "status s r c = 0" unfolding grows_def by (metis zero_neq_one)
  then show ?case by (rule flood.start)
next
  case (step r1 c1 r2 c2)
  have sur: "surrounds s1 r1 c1 = surrounds s r1 c1" by (simp add: surrounds_def hw)
  have cl: "cell s1 r1 c1 = cell s r1 c1" by (simp add: cell_def f)
  from step(3) sur have inb2: "in_bounds s r2 c2" by (auto dest: surrounds_in_bounds)
  with g step(4) have "status s r2 c2 = 0" unfolding grows_def by (metis zero_neq_one)
  with step sur cl show ?case by (auto intro: flood.step)
qed

text \<open>Every location set to dug lies in the flood set.\<close>

lemma dig_log_sound:
  shows "well_shaped s \<Longrightarrow> in_bounds s r c \<Longrightarrow> set (dig_log r c s) \<subseteq> flood s r c"
    and "well_shaped s \<Longrightarrow> \<forall>p \<in> set locs. in_bounds s (fst p) (snd p) \<Longrightarrow>
           set (dig_each_log locs s) \<subseteq> (\<Union>q \<in> set locs. flood s (fst q) (snd q))"
proof -
  let ?P = "\<lambda>r c s. set (dig_log r c s) \<subseteq> flood s r c"
  let ?Q = "\<lambda>locs s. set (dig_each_log locs s) \<subseteq> (\<Union>q \<in> set locs. flood s (fst q) (snd q))"
  have d: "?P r c s"
    if wf: "well_shaped s" and inb: "in_bounds s r c"
      and ih: "status s r c = 0 \<Longrightarrow> cell s r c = 0 \<Longrightarrow>
        ?Q (surrounds s r c) (s\<lparr>field_map := put (field_map s) r c 1\<rparr>)"
    for r c s
  proof (cases "status s r c = 0")
    case False
    then show ?thesis by (simp add: dig_log_in[OF wf inb])
  next
    case True
    then have st: "(r, c) \<in> flood s r c" by (rule flood.start)
    show ?thesis
    proof (cases "cell s r c = 0")
      case False
      with True st show ?thesis by (simp add: dig_log_in[OF wf inb])
    next
      case z: True
      let ?s1 = "s\<lparr>field_map := put (field_map s) r c 1\<rparr>"
      have g: "grows s ?s1" by (rule grows_put[OF wf inb True])
      have "p \<in> flood s r c" if p: "p \<in> set (dig_each_log (surrounds s r c) ?s1)" for p
      proof -
        obtain a b where ab: "p = (a, b)" by (cases p)
        from ih[OF True z] p ab obtain q1 q2 where q: "(q1, q2) \<in> set (surrounds s r c)"
          and pq: "(a, b) \<in> flood ?s1 q1 q2" by fastforce
        from q have qin: "in_bounds s q1 q2" by (rule surrounds_in_bounds)
        from flood_mono[OF g _ _ _ qin pq] have pq': "(a, b) \<in> flood s q1 q2" by simp
        then have "status s q1 q2 = 0" by (rule flood_start_buried)
        with st z q have "(q1, q2) \<in> flood s r c" by (rule flood.step)
        from flood_trans[OF this pq'] ab show ?thesis by simp
      qed
      with st True z show ?thesis by (auto simp add: dig_log_in[OF wf inb])
    qed
  qed
  have n: "?Q [] s" for s by simp
  have c: "?Q ((r, c) # locs) s"
    if wf: "well_shaped s" and inb: "in_bounds s r c"
      and locs: "\<forall>p \<in> set locs. in_bounds s (fst p) (snd p)"
      and 1: "?P r c s" and 2: "?Q locs (snd (dig r c s))"
    for r c locs s
  proof -
    let ?s1 = "snd (dig r c s)"
    from dig_ok(1)[OF wf in_bounds_valid[OF inb]] have g: "grows s ?s1" by simp
    note fr = dig_frame(1)[of r c s]
    have "p \<in> (\<Union>q \<in> set locs. flood s (fst q) (snd q))"
      if "p \<in> set (dig_each_log locs ?s1)" for p
    proof -
      obtain a b where ab: "p = (a, b)" by (cases p)
      from 2 that ab obtain q where q: "q \<in> set locs" "(a, b) \<in> flood ?s1 (fst q) (snd q)"
        by blast
      from locs q(1) have "in_bounds s (fst q) (snd q)" by simp
      from flood_mono[OF g _ _ _ this q(2)] fr have "(a, b) \<in> flood s (fst q) (snd q)"
        by simp
      with q(1) ab show ?thesis by blast
    qed
    with 1 show ?thesis unfolding dig_each_Cons_in[OF wf inb] by auto
  qed
  show "well_shaped s \<Longrightarrow> in_bounds s r c \<Longrightarrow> set (dig_log r c s) \<subseteq> flood s r c"
    by (rule dig_induct_in(1)[where P = ?P and Q = ?Q, OF d n c])
  show "well_shaped s \<Longrightarrow> \<forall>p \<in> set locs. in_bounds s (fst p) (snd p) \<Longrightarrow>
           set (dig_each_log locs s) \<subseteq> (\<Union>q \<in> set locs. flood s (fst q) (snd q))"
    by (rule dig_induct_in(2)[where P = ?P and Q = ?Q, OF d n c])
qed

text \<open>
  After the call, no location around a location that was set to dug and has count 0 is
  still buried.
\<close>

definition closed_after :: "minefield \<Rightarrow> (int \<times> int) list \<Rightarrow> minefield \<Rightarrow> bool" where
  "closed_after s l s' \<longleftrightarrow>
     (\<forall>p \<in> set l. cell s (fst p) (snd p) = 0 \<longrightarrow>
        (\<forall>q \<in> set (surrounds s (fst p) (snd p)). status s' (fst q) (snd q) \<noteq> 0))"

lemma not_buried_stays:
  "grows s s' \<Longrightarrow> in_bounds s r c \<Longrightarrow> status s r c \<noteq> 0 \<Longrightarrow> status s' r c \<noteq> 0"
  unfolding grows_def by metis

lemma dig_target_not_buried:
  assumes "well_shaped s" "in_bounds s r c"
  shows "status (snd (dig r c s)) r c \<noteq> 0"
proof (cases "status s r c = 0")
  case True
  then have "(r, c) \<in> set (dig_log r c s)" by (simp add: dig_log_in[OF assms])
  with dig_log_dug_exactly(1)[OF assms] have "status (snd (dig r c s)) r c = 1"
    unfolding dug_exactly_def by fastforce
  then show ?thesis by simp
next
  case False
  then show ?thesis by (simp add: dig_in[OF assms])
qed

lemma dig_log_closed:
  shows "well_shaped s \<Longrightarrow> in_bounds s r c \<Longrightarrow>
           closed_after s (dig_log r c s) (snd (dig r c s))"
    and "well_shaped s \<Longrightarrow> \<forall>p \<in> set locs. in_bounds s (fst p) (snd p) \<Longrightarrow>
           closed_after s (dig_each_log locs s) (snd (dig_each locs s))
           \<and> (\<forall>q \<in> set locs. status (snd (dig_each locs s)) (fst q) (snd q) \<noteq> 0)"
proof -
  let ?P = "\<lambda>r c s. closed_after s (dig_log r c s) (snd (dig r c s))"
  let ?Q = "\<lambda>locs s. closed_after s (dig_each_log locs s) (snd (dig_each locs s))
           \<and> (\<forall>q \<in> set locs. status (snd (dig_each locs s)) (fst q) (snd q) \<noteq> 0)"
  have d: "?P r c s"
    if wf: "well_shaped s" and inb: "in_bounds s r c"
      and ih: "status s r c = 0 \<Longrightarrow> cell s r c = 0 \<Longrightarrow>
        ?Q (surrounds s r c) (s\<lparr>field_map := put (field_map s) r c 1\<rparr>)"
    for r c s
  proof (cases "status s r c = 0 \<and> cell s r c = 0")
    case True
    with ih show ?thesis
      by (simp add: dig_in[OF wf inb] dig_log_in[OF wf inb] closed_after_def)
  next
    case False
    then show ?thesis
      by (auto simp add: dig_in[OF wf inb] dig_log_in[OF wf inb] closed_after_def)
  qed
  have n: "?Q [] s" for s by (simp add: closed_after_def)
  have c: "?Q ((r, c) # locs) s"
    if wf: "well_shaped s" and inb: "in_bounds s r c"
      and locs: "\<forall>p \<in> set locs. in_bounds s (fst p) (snd p)"
      and 1: "?P r c s" and 2: "?Q locs (snd (dig r c s))"
    for r c locs s
  proof -
    let ?s1 = "snd (dig r c s)" and ?s2 = "snd (dig_each locs (snd (dig r c s)))"
    note fr = dig_frame(1)[of r c s]
    from dig_ok(1)[OF wf in_bounds_valid[OF inb]] have wf1: "well_shaped ?s1" by simp
    have inb1: "in_bounds ?s1 a b = in_bounds s a b" for a b
      using fr by (simp add: in_bounds_def)
    have sur1: "surrounds ?s1 a b = surrounds s a b" for a b
      using fr by (simp add: surrounds_def)
    have cell1: "cell ?s1 a b = cell s a b" for a b
      using fr by (simp add: cell_def)
    from locs inb1 have locs1: "\<forall>p \<in> set locs. in_bounds ?s1 (fst p) (snd p)" by simp
    from dig_ok(2)[OF wf1 locs1] have g12: "grows ?s1 ?s2" by simp
    have A: "closed_after s (dig_log r c s @ dig_each_log locs ?s1) ?s2"
      unfolding closed_after_def
    proof (intro ballI impI)
      fix p q
      assume p: "p \<in> set (dig_log r c s @ dig_each_log locs ?s1)"
        and z: "cell s (fst p) (snd p) = 0"
        and q: "q \<in> set (surrounds s (fst p) (snd p))"
      from q have qin: "in_bounds ?s1 (fst q) (snd q)"
        using surrounds_in_bounds[of "fst q" "snd q" s "fst p" "snd p"] inb1 by simp
      show "status ?s2 (fst q) (snd q) \<noteq> 0"
      proof (cases "p \<in> set (dig_log r c s)")
        case True
        with 1 z q have "status ?s1 (fst q) (snd q) \<noteq> 0" unfolding closed_after_def by blast
        with g12 qin show ?thesis by (rule not_buried_stays)
      next
        case False
        with p have "p \<in> set (dig_each_log locs ?s1)" by simp
        with 2 z q cell1 sur1 show ?thesis unfolding closed_after_def by auto
      qed
    qed
    have B: "status ?s2 r c \<noteq> 0"
      using g12 _ dig_target_not_buried[OF wf inb]
      by (rule not_buried_stays) (simp add: inb1 inb)
    from A B 2 show ?thesis unfolding dig_each_Cons_in[OF wf inb] by simp
  qed
  show "well_shaped s \<Longrightarrow> in_bounds s r c \<Longrightarrow>
           closed_after s (dig_log r c s) (snd (dig r c s))"
    by (rule dig_induct_in(1)[where P = ?P and Q = ?Q, OF d n c])
  show "well_shaped s \<Longrightarrow> \<forall>p \<in> set locs. in_bounds s (fst p) (snd p) \<Longrightarrow>
           closed_after s (dig_each_log locs s) (snd (dig_each locs s))
           \<and> (\<forall>q \<in> set locs. status (snd (dig_each locs s)) (fst q) (snd q) \<noteq> 0)"
    by (rule dig_induct_in(2)[where P = ?P and Q = ?Q, OF d n c])
qed

lemma dig_log_complete:
  assumes wf: "well_shaped s" and inb: "in_bounds s r c" and f: "(a, b) \<in> flood s r c"
  shows "(a, b) \<in> set (dig_log r c s)"
  using f
proof (induction rule: flood.induct)
  case start
  then show ?case by (simp add: dig_log_in[OF wf inb])
next
  case (step r1 c1 r2 c2)
  from dig_log_closed(1)[OF wf inb] step(5,2,3)
  have nb: "status (snd (dig r c s)) r2 c2 \<noteq> 0" unfolding closed_after_def by fastforce
  from step(3) have in2: "in_bounds s r2 c2" by (rule surrounds_in_bounds)
  show ?case
  proof (rule ccontr)
    assume "(r2, c2) \<notin> set (dig_log r c s)"
    with dig_log_dug_exactly(1)[OF wf inb] in2
    have "status (snd (dig r c s)) r2 c2 = status s r2 c2" unfolding dug_exactly_def by blast
    with step(4) nb show False by simp
  qed
qed

lemma dig_log_flood:
  assumes "well_shaped s" "in_bounds s r c"
  shows "set (dig_log r c s) = flood s r c"
  using dig_log_sound(1)[OF assms] dig_log_complete[OF assms] by auto

lemma flood_in_bounds: "(a, b) \<in> flood s r c \<Longrightarrow> in_bounds s r c \<Longrightarrow> in_bounds s a b"
  by (induction rule: flood.induct) (auto dest: surrounds_in_bounds)

text \<open>
  The region of buried locations with count 0 that hang together with \<open>(r, c)\<close>
  through surrounding locations, and the buried locations with another count around
  that region. \<open>counts_ok\<close>: every entry of \<open>field\<close> that is not a mine is the number of
  mines around it, as \<open>__locate_mines\<close> leaves it.
\<close>

inductive_set zero_region :: "minefield \<Rightarrow> int \<Rightarrow> int \<Rightarrow> (int \<times> int) set"
  for s :: minefield and r :: int and c :: int where
  origin: "(r, c) \<in> zero_region s r c"
| grow: "(r1, c1) \<in> zero_region s r c \<Longrightarrow> (r2, c2) \<in> set (surrounds s r1 c1) \<Longrightarrow>
         status s r2 c2 = 0 \<Longrightarrow> cell s r2 c2 = 0 \<Longrightarrow> (r2, c2) \<in> zero_region s r c"

definition border :: "minefield \<Rightarrow> int \<Rightarrow> int \<Rightarrow> (int \<times> int) set" where
  "border s r c =
     {(r2, c2). \<exists>(r1, c1) \<in> zero_region s r c.
        (r2, c2) \<in> set (surrounds s r1 c1) \<and> status s r2 c2 = 0 \<and> cell s r2 c2 \<noteq> 0}"

definition counts_ok :: "minefield \<Rightarrow> bool" where
  "counts_ok s \<longleftrightarrow>
     (\<forall>r c. in_bounds s r c \<longrightarrow> cell s r c \<noteq> -1 \<longrightarrow>
        cell s r c = int (length (filter (\<lambda>(r', c'). cell s r' c' = -1) (surrounds s r c))))"

lemma counts_ok_code:
  "counts_ok s \<longleftrightarrow>
     list_all (\<lambda>r. list_all (\<lambda>c. cell s r c \<noteq> -1 \<longrightarrow>
        cell s r c = int (length (filter (\<lambda>(r', c'). cell s r' c' = -1) (surrounds s r c))))
        [0..width s - 1]) [0..height s - 1]"
  unfolding counts_ok_def in_bounds_def list_all_iff by auto

lemma easy_game_counts_ok: "counts_ok easy_game"
  unfolding counts_ok_code by code_simp

lemma zero_region_flood:
  assumes b: "status s r c = 0" and z: "cell s r c = 0"
  shows "(a, b) \<in> zero_region s r c \<Longrightarrow> (a, b) \<in> flood s r c \<and> cell s a b = 0"
proof (induction rule: zero_region.induct)
  case origin
  from b z show ?case by (simp add: flood.start)
next
  case (grow r1 c1 r2 c2)
  then show ?case by (auto intro: flood.step)
qed

lemma flood_zero_region:
  assumes z: "cell s r c = 0"
  shows "(a, b) \<in> flood s r c \<Longrightarrow> (a, b) \<in> zero_region s r c \<union> border s r c"
proof (induction rule: flood.induct)
  case start
  show ?case by (simp add: zero_region.origin)
next
  case (step r1 c1 r2 c2)
  from step(5,2) have in1: "(r1, c1) \<in> zero_region s r c" by (auto simp: border_def)
  show ?case
  proof (cases "cell s r2 c2 = 0")
    case True
    with in1 step(3,4) have "(r2, c2) \<in> zero_region s r c" by (rule zero_region.grow)
    then show ?thesis by simp
  next
    case False
    with in1 step(3,4) have "(r2, c2) \<in> border s r c" by (auto simp: border_def)
    then show ?thesis by simp
  qed
qed

lemma flood_eq:
  assumes "status s r c = 0" "cell s r c = 0"
  shows "flood s r c = zero_region s r c \<union> border s r c"
proof (intro set_eqI iffI)
  fix p assume "p \<in> flood s r c"
  then show "p \<in> zero_region s r c \<union> border s r c"
    using flood_zero_region[OF assms(2)] by (cases p) blast
next
  fix p assume p: "p \<in> zero_region s r c \<union> border s r c"
  obtain a b where ab: "p = (a, b)" by (cases p)
  show "p \<in> flood s r c"
  proof (cases "p \<in> zero_region s r c")
    case True
    with zero_region_flood[OF assms] ab show ?thesis by blast
  next
    case False
    with p ab obtain r1 c1 where "(r1, c1) \<in> zero_region s r c"
      "(a, b) \<in> set (surrounds s r1 c1)" "status s a b = 0"
      by (auto simp: border_def)
    with zero_region_flood[OF assms, of r1 c1] ab show ?thesis
      by (auto intro: flood.step)
  qed
qed

lemma zero_no_mine_around:
  assumes "counts_ok s" "in_bounds s r1 c1" "cell s r1 c1 = 0" "(r2, c2) \<in> set (surrounds s r1 c1)"
  shows "cell s r2 c2 \<noteq> -1"
proof
  assume m: "cell s r2 c2 = -1"
  from assms(1,2,3) have "length (filter (\<lambda>(r', c'). cell s r' c' = -1) (surrounds s r1 c1)) = 0"
    unfolding counts_ok_def by fastforce
  then have "filter (\<lambda>(r', c'). cell s r' c' = -1) (surrounds s r1 c1) = []" by simp
  with assms(4) m show False by (auto simp: filter_empty_conv)
qed

lemma flood_no_mine:
  assumes ok: "counts_ok s" and inb: "in_bounds s r c" and z: "cell s r c = 0"
  shows "(a, b) \<in> flood s r c \<Longrightarrow> cell s a b \<noteq> -1"
proof (induction rule: flood.induct)
  case start
  from z show ?case by simp
next
  case (step r1 c1 r2 c2)
  from flood_in_bounds[OF step(1) inb] have "in_bounds s r1 c1" .
  from zero_no_mine_around[OF ok this step(2,3)] show ?case .
qed

lemma counts_ok_nonneg: "counts_ok s \<Longrightarrow> in_bounds s r c \<Longrightarrow> cell s r c \<noteq> -1 \<Longrightarrow> 0 \<le> cell s r c"
  unfolding counts_ok_def by (metis of_nat_0_le_iff)

text \<open>
  Claim C2 says that digging a buried location with count 0 sets to dug the whole
  maximal region of count-0 locations containing it and the numbered locations around
  that region. The buried test of \<open>dig\<close> stops at a flag. On the EASY game, after
  \<open>flag(3, 7)\<close>, the locations (0,7), (1,7), (2,7), (3,7) all have count 0 and each
  is next to the one before, and (4,7) with count 2 is next to (3,7); \<open>dig(0, 7)\<close>
  sets (2,7) to dug, leaves (3,7) flagged and leaves (4,7) buried.
\<close>

theorem flood_blocked_counterexample:
  "status (snd (flag 3 7 easy_game)) 0 7 = 0
   \<and> cell (snd (flag 3 7 easy_game)) 0 7 = 0
   \<and> cell (snd (flag 3 7 easy_game)) 1 7 = 0
   \<and> cell (snd (flag 3 7 easy_game)) 2 7 = 0
   \<and> cell (snd (flag 3 7 easy_game)) 3 7 = 0
   \<and> (1, 7) \<in> set (surrounds (snd (flag 3 7 easy_game)) 0 7)
   \<and> (2, 7) \<in> set (surrounds (snd (flag 3 7 easy_game)) 1 7)
   \<and> (3, 7) \<in> set (surrounds (snd (flag 3 7 easy_game)) 2 7)
   \<and> (4, 7) \<in> set (surrounds (snd (flag 3 7 easy_game)) 3 7)
   \<and> cell (snd (flag 3 7 easy_game)) 4 7 = 2
   \<and> fst (dig 0 7 (snd (flag 3 7 easy_game))) = None
   \<and> status (snd (dig 0 7 (snd (flag 3 7 easy_game)))) 2 7 = 1
   \<and> status (snd (dig 0 7 (snd (flag 3 7 easy_game)))) 3 7 = 2
   \<and> status (snd (dig 0 7 (snd (flag 3 7 easy_game)))) 4 7 = 0"
  by code_simp

text \<open>
  Claim C2, amended. On a well-shaped instance whose counts are right, \<open>dig\<close> at a
  location within bounds that is buried and has count 0 raises nothing and sets to dug
  exactly the locations of \<open>zero_region\<close> and \<open>border\<close>: the buried count-0 locations
  connected to it through buried count-0 locations, and the buried locations around
  them, which carry a count above 0. Every other location within bounds, the flagged
  and the dug ones among them, keeps its status. No location set to dug is a mine, and
  \<open>game_lost\<close> is as before.
\<close>

theorem dig_zero_floods:
  assumes "well_shaped s" "counts_ok s" "in_bounds s r c" "status s r c = 0" "cell s r c = 0"
  shows "fst (dig r c s) = None
     \<and> (\<forall>r' c'. in_bounds s r' c' \<longrightarrow>
           status (snd (dig r c s)) r' c'
             = (if (r', c') \<in> zero_region s r c \<union> border s r c then 1 else status s r' c'))
     \<and> (\<forall>p \<in> zero_region s r c \<union> border s r c.
           in_bounds s (fst p) (snd p) \<and> status s (fst p) (snd p) = 0
           \<and> cell s (fst p) (snd p) \<noteq> -1)
     \<and> (\<forall>p \<in> zero_region s r c. cell s (fst p) (snd p) = 0)
     \<and> (\<forall>p \<in> border s r c. 0 < cell s (fst p) (snd p))
     \<and> game_lost (snd (dig r c s)) = game_lost s"
proof -
  note wf = assms(1) and ok = assms(2) and inb = assms(3)
  have fl: "set (dig_log r c s) = zero_region s r c \<union> border s r c"
    using dig_log_flood[OF wf inb] flood_eq[OF assms(4,5)] by simp
  note e = dig_log_dug_exactly(1)[OF wf inb, unfolded dug_exactly_def fl]
  have 1: "fst (dig r c s) = None"
    using dig_ok(1)[OF wf in_bounds_valid[OF inb]] by simp
  have 2: "\<forall>r' c'. in_bounds s r' c' \<longrightarrow>
           status (snd (dig r c s)) r' c'
             = (if (r', c') \<in> zero_region s r c \<union> border s r c then 1 else status s r' c')"
  proof (intro allI impI)
    fix r' c' assume i: "in_bounds s r' c'"
    show "status (snd (dig r c s)) r' c'
             = (if (r', c') \<in> zero_region s r c \<union> border s r c then 1 else status s r' c')"
    proof (cases "(r', c') \<in> zero_region s r c \<union> border s r c")
      case True
      with e have "status (snd (dig r c s)) (fst (r', c')) (snd (r', c')) = 1" by blast
      with True show ?thesis by simp
    next
      case False
      with e i show ?thesis by simp
    qed
  qed
  have nm: "cell s (fst p) (snd p) \<noteq> -1" if "p \<in> zero_region s r c \<union> border s r c" for p
  proof -
    from that flood_eq[OF assms(4,5)] have "(fst p, snd p) \<in> flood s r c" by simp
    then show ?thesis by (rule flood_no_mine[OF ok inb assms(5)])
  qed
  have 3: "\<forall>p \<in> zero_region s r c \<union> border s r c.
           in_bounds s (fst p) (snd p) \<and> status s (fst p) (snd p) = 0
           \<and> cell s (fst p) (snd p) \<noteq> -1"
    using e nm by blast
  have 4: "\<forall>p \<in> zero_region s r c. cell s (fst p) (snd p) = 0"
    using zero_region_flood[OF assms(4,5)] by auto
  have 5: "\<forall>p \<in> border s r c. 0 < cell s (fst p) (snd p)"
  proof
    fix p assume p: "p \<in> border s r c"
    then have nz: "cell s (fst p) (snd p) \<noteq> 0" by (auto simp: border_def)
    from p 3 have "in_bounds s (fst p) (snd p)" "cell s (fst p) (snd p) \<noteq> -1" by auto
    from counts_ok_nonneg[OF ok this] nz show "0 < cell s (fst p) (snd p)" by simp
  qed
  have 6: "game_lost (snd (dig r c s)) = game_lost s"
    using dig_log_lost(1)[OF wf inb] nm unfolding fl game_lost_def by blast
  from 1 2 3 4 5 6 show ?thesis by blast
qed

theorem dig_zero_floods_witness:
  "well_shaped easy_game \<and> counts_ok easy_game \<and> in_bounds easy_game 0 7
   \<and> status easy_game 0 7 = 0 \<and> cell easy_game 0 7 = 0
   \<and> fst (dig 0 7 easy_game) = None
   \<and> (3, 7) \<in> zero_region easy_game 0 7
   \<and> (4, 7) \<in> border easy_game 0 7
   \<and> status (snd (dig 0 7 easy_game)) 3 7 = 1
   \<and> status (snd (dig 0 7 easy_game)) 4 7 = 1
   \<and> (7, 7) \<notin> zero_region easy_game 0 7 \<union> border easy_game 0 7
   \<and> game_lost (snd (dig 0 7 easy_game)) = game_lost easy_game"
proof -
  have a: "well_shaped easy_game" by (rule easy_game_shaped)
  have b: "counts_ok easy_game" by (rule easy_game_counts_ok)
  have c: "in_bounds easy_game 0 7" "in_bounds easy_game 3 7" "in_bounds easy_game 4 7"
    "in_bounds easy_game 7 7" by code_simp+
  have d: "status easy_game 0 7 = 0" "cell easy_game 0 7 = 0" by code_simp+
  note t = dig_zero_floods[OF a b c(1) d]
  have z0: "(0, 7) \<in> zero_region easy_game 0 7" by (rule zero_region.origin)
  have z1: "(1, 7) \<in> zero_region easy_game 0 7"
    by (rule zero_region.grow[OF z0]; code_simp)
  have z2: "(2, 7) \<in> zero_region easy_game 0 7"
    by (rule zero_region.grow[OF z1]; code_simp)
  have z3: "(3, 7) \<in> zero_region easy_game 0 7"
    by (rule zero_region.grow[OF z2]; code_simp)
  have e: "(4, 7) \<in> set (surrounds easy_game 3 7)" "status easy_game 4 7 = 0"
    "cell easy_game 4 7 \<noteq> 0" by code_simp+
  with z3 have b4: "(4, 7) \<in> border easy_game 0 7" unfolding border_def by blast
  have f: "status (snd (dig 0 7 easy_game)) 7 7 = 0" by code_simp
  from t c(2) z3 have s3: "status (snd (dig 0 7 easy_game)) 3 7 = 1" by simp
  from t c(3) b4 have s4: "status (snd (dig 0 7 easy_game)) 4 7 = 1" by simp
  have n7: "(7, 7) \<notin> zero_region easy_game 0 7 \<union> border easy_game 0 7"
  proof
    assume "(7, 7) \<in> zero_region easy_game 0 7 \<union> border easy_game 0 7"
    with t c(4) have "status (snd (dig 0 7 easy_game)) 7 7 = 1" by simp
    with f show False by simp
  qed
  from t have g: "fst (dig 0 7 easy_game) = None"
    "game_lost (snd (dig 0 7 easy_game)) = game_lost easy_game" by simp_all
  from a b c(1) d g z3 b4 s3 s4 n7 show ?thesis by blast
qed

section \<open>Construction\<close>

subsection \<open>Shuffling and reshaping the flat array\<close>

lemma mset_shuffle:
  assumes "is_perm perm (length xs)"
  shows "mset (shuffle perm xs) = mset xs"
proof -
  have "mset (shuffle perm xs) = image_mset (\<lambda>i. xs ! i) (mset perm)"
    by (simp add: shuffle_def)
  also have "\<dots> = image_mset (\<lambda>i. xs ! i) (mset [0..<length xs])"
    using assms by (simp add: is_perm_def)
  also have "\<dots> = mset (map (\<lambda>i. xs ! i) [0..<length xs])" by simp
  also have "\<dots> = mset xs" by (simp add: map_nth)
  finally show ?thesis .
qed

lemma length_shuffle: "is_perm perm (length xs) \<Longrightarrow> length (shuffle perm xs) = length xs"
  using mset_shuffle[of perm xs] by (metis size_mset)

lemma set_shuffle: "is_perm perm (length xs) \<Longrightarrow> set (shuffle perm xs) = set xs"
  using mset_shuffle[of perm xs] by (metis set_mset_mset)

lemma count_shuffle:
  "is_perm perm (length xs) \<Longrightarrow> length (filter P (shuffle perm xs)) = length (filter P xs)"
  using mset_shuffle[of perm xs] by (metis mset_filter size_mset)

lemma shaped_reshape: "length xs = h * w \<Longrightarrow> shaped h w (reshape xs h w)"
proof -
  assume l: "length xs = h * w"
  have "length (take w (drop (i * w) xs)) = w" if "i < h" for i
  proof -
    from that have "Suc i \<le> h" by simp
    then have "Suc i * w \<le> h * w" by (rule mult_le_mono1)
    then have "i * w + w \<le> length xs" using l by simp
    then show ?thesis by simp
  qed
  then show ?thesis by (simp add: shaped_def reshape_def list_all_length)
qed

lemma concat_reshape: "length xs = h * w \<Longrightarrow> concat (reshape xs h w) = xs"
proof (induction h arbitrary: xs)
  case 0
  then show ?case by (simp add: reshape_def)
next
  case (Suc h)
  have "reshape xs (Suc h) w = take w xs # reshape (drop w xs) h w"
  proof -
    have "[0..<Suc h] = 0 # map Suc [0..<h]" by (simp add: upt_conv_Cons map_Suc_upt)
    then show ?thesis by (simp add: reshape_def comp_def add.commute)
  qed
  moreover from Suc.prems have "length (drop w xs) = h * w" by simp
  ultimately show ?case using Suc.IH[of "drop w xs"] by simp
qed

lemma count_concat_lookup:
  assumes "shaped h w a" "shaped h w b"
    and "\<And>i j. i < h \<Longrightarrow> j < w \<Longrightarrow> P (a ! i ! j) \<longleftrightarrow> P (b ! i ! j)"
  shows "length (filter P (concat a)) = length (filter P (concat b))"
proof -
  have "map (map P) a = map (map P) b"
  proof (rule nth_equalityI)
    show "length (map (map P) a) = length (map (map P) b)"
      using assms(1,2) by (simp add: shaped_def)
  next
    fix i assume "i < length (map (map P) a)"
    then have i: "i < h" using assms(1) by (simp add: shaped_def)
    have "map P (a ! i) = map P (b ! i)"
    proof (rule nth_equalityI)
      show "length (map P (a ! i)) = length (map P (b ! i))"
        using shaped_row[OF assms(1) i] shaped_row[OF assms(2) i] by simp
    next
      fix j assume "j < length (map P (a ! i))"
      then have j: "j < w" using shaped_row[OF assms(1) i] by simp
      with i assms(3)[OF i j] shaped_row[OF assms(1) i] shaped_row[OF assms(2) i]
      show "map P (a ! i) ! j = map P (b ! i) ! j" by simp
    qed
    with i assms(1,2) show "map (map P) a ! i = map (map P) b ! i"
      by (simp add: shaped_def)
  qed
  then have "map P (concat a) = map P (concat b)" by (simp add: map_concat)
  then have "length (filter id (map P (concat a))) = length (filter id (map P (concat b)))"
    by simp
  then show ?thesis by (simp add: filter_map comp_def)
qed

lemma shaped_concat_nth:
  assumes "shaped h w a" "i < h" "j < w"
  shows "a ! i ! j \<in> set (concat a)"
proof -
  from assms have "a ! i \<in> set a" "a ! i ! j \<in> set (a ! i)"
    by (auto simp: shaped_length shaped_row[of h w a])
  then show ?thesis by auto
qed

subsection \<open>The adjacency pass\<close>

text \<open>A location within an array of \<open>h\<close> rows and \<open>w\<close> columns.\<close>

definition within :: "nat \<Rightarrow> nat \<Rightarrow> int \<Rightarrow> int \<Rightarrow> bool" where
  "within h w r c \<longleftrightarrow> 0 \<le> r \<and> r < int h \<and> 0 \<le> c \<and> c < int w"

lemma add_each_at:
  assumes "shaped h w a"
    and "\<forall>p \<in> set locs. within h w (fst p) (snd p)"
    and "\<forall>r c. within h w r c \<longrightarrow> -1 \<le> at a r c"
  shows "\<exists>a'. add_each locs a = Inr a' \<and> shaped h w a'
     \<and> (\<forall>r c. within h w r c \<longrightarrow>
           at a' r c = (if at a r c = -1 then -1 else at a r c + int (count_list locs (r, c))))"
  using assms
proof (induction locs arbitrary: a)
  case Nil
  then show ?case by simp
next
  case (Cons p locs)
  obtain r c where p: "p = (r, c)" by (cases p)
  from Cons.prems(2) p have w: "0 \<le> r" "r < int h" "0 \<le> c" "c < int w"
    and rest: "\<forall>p \<in> set locs. within h w (fst p) (snd p)"
    by (simp_all add: within_def)
  note sh = Cons.prems(1)
  have g: "getitem a r c = Inr (at a r c)" by (rule getitem_in[OF sh w])
  show ?case
  proof (cases "at a r c = -1")
    case True
    from Cons.IH[OF sh rest Cons.prems(3)] obtain a' where a': "add_each locs a = Inr a'"
      "shaped h w a'"
      "\<forall>r c. within h w r c \<longrightarrow>
           at a' r c = (if at a r c = -1 then -1 else at a r c + int (count_list locs (r, c)))"
      by blast
    have "add_each (p # locs) a = Inr a'" using True g a'(1) by (simp add: p)
    moreover have "\<forall>r' c'. within h w r' c' \<longrightarrow>
           at a' r' c' = (if at a r' c' = -1 then -1
                          else at a r' c' + int (count_list (p # locs) (r', c')))"
      using a'(3) True by (auto simp: p)
    ultimately show ?thesis using a'(2) by blast
  next
    case False
    let ?a1 = "put a r c (at a r c + 1)"
    have sh1: "shaped h w ?a1" by (rule shaped_put[OF sh])
    have at1: "at ?a1 r' c' = (if r' = r \<and> c' = c then at a r c + 1 else at a r' c')"
      if "within h w r' c'" for r' c'
      using that at_put[OF sh w, of r' c'] by (simp add: within_def)
    from Cons.prems(3) w have ge: "-1 \<le> at a r c" by (simp add: within_def)
    have ge1: "\<forall>r' c'. within h w r' c' \<longrightarrow> -1 \<le> at ?a1 r' c'"
      using at1 Cons.prems(3) ge by auto
    from Cons.IH[OF sh1 rest ge1] obtain a' where a': "add_each locs ?a1 = Inr a'"
      "shaped h w a'"
      "\<forall>r' c'. within h w r' c' \<longrightarrow>
           at a' r' c' = (if at ?a1 r' c' = -1 then -1
                          else at ?a1 r' c' + int (count_list locs (r', c')))"
      by blast
    have "add_each (p # locs) a = Inr a'"
      using False g a'(1) setitem_in[OF sh w] by (simp add: p)
    moreover have "\<forall>r' c'. within h w r' c' \<longrightarrow>
           at a' r' c' = (if at a r' c' = -1 then -1
                          else at a r' c' + int (count_list (p # locs) (r', c')))"
    proof (intro allI impI)
      fix r' c' assume wi: "within h w r' c'"
      show "at a' r' c' = (if at a r' c' = -1 then -1
                          else at a r' c' + int (count_list (p # locs) (r', c')))"
      proof (cases "r' = r \<and> c' = c")
        case True
        with a'(3) wi at1[OF wi] ge False show ?thesis by (simp add: p)
      next
        case False
        with a'(3) wi at1[OF wi] show ?thesis by (auto simp: p)
      qed
    qed
    ultimately show ?thesis using a'(2) by blast
  qed
qed

lemma within_in_bounds:
  "0 \<le> height s \<Longrightarrow> 0 \<le> width s \<Longrightarrow>
     within (nat (height s)) (nat (width s)) r c = in_bounds s r c"
  by (auto simp: within_def in_bounds_def)

lemma surrounds_field [simp]: "surrounds (s\<lparr>field := a\<rparr>) r c = surrounds s r c"
  by (simp add: surrounds_def)

lemma in_bounds_field [simp]: "in_bounds (s\<lparr>field := a\<rparr>) r c = in_bounds s r c"
  by (simp add: in_bounds_def)

lemma locate_each_at:
  assumes "0 \<le> height s" "0 \<le> width s"
    and "shaped (nat (height s)) (nat (width s)) (field s)"
    and "\<forall>r c. in_bounds s r c \<longrightarrow> -1 \<le> cell s r c"
  shows "\<exists>a'. locate_each ms s = Inr (s\<lparr>field := a'\<rparr>)
     \<and> shaped (nat (height s)) (nat (width s)) a'
     \<and> (\<forall>r c. in_bounds s r c \<longrightarrow>
           at a' r c = (if cell s r c = -1 then -1
              else cell s r c
                + (\<Sum>m\<leftarrow>ms. int (count_list (surrounds s (fst m) (snd m)) (r, c)))))"
  using assms
proof (induction ms arbitrary: s)
  case Nil
  have "s\<lparr>field := field s\<rparr> = s" by simp
  with Nil show ?case by (auto simp: cell_def intro!: exI[of _ "field s"])
next
  case (Cons m ms)
  obtain mr mc where m: "m = (mr, mc)" by (cases m)
  let ?h = "nat (height s)" and ?w = "nat (width s)"
  note wi = within_in_bounds[OF Cons.prems(1,2)]
  have locs: "\<forall>p \<in> set (surrounds s mr mc). within ?h ?w (fst p) (snd p)"
    using wi by (auto dest: surrounds_in_bounds)
  have ge: "\<forall>r c. within ?h ?w r c \<longrightarrow> -1 \<le> at (field s) r c"
    using Cons.prems(4) wi by (simp add: cell_def)
  from add_each_at[OF Cons.prems(3) locs ge] obtain a1 where
    a1: "add_each (surrounds s mr mc) (field s) = Inr a1" "shaped ?h ?w a1"
    "\<forall>r c. within ?h ?w r c \<longrightarrow>
       at a1 r c = (if at (field s) r c = -1 then -1
                    else at (field s) r c + int (count_list (surrounds s mr mc) (r, c)))"
    by blast
  let ?s1 = "s\<lparr>field := a1\<rparr>"
  have ge1: "\<forall>r c. in_bounds ?s1 r c \<longrightarrow> -1 \<le> cell ?s1 r c"
  proof (intro allI impI)
    fix r c assume "in_bounds ?s1 r c"
    then have i: "within ?h ?w r c" using wi by simp
    with ge have "-1 \<le> at (field s) r c" by simp
    moreover have "0 \<le> int (count_list (surrounds s mr mc) (r, c))" by simp
    ultimately show "-1 \<le> cell ?s1 r c" using a1(3) i by (simp add: cell_def)
  qed
  from Cons.IH[of ?s1] Cons.prems(1,2) a1(2) ge1 obtain a' where
    a': "locate_each ms ?s1 = Inr (?s1\<lparr>field := a'\<rparr>)" "shaped ?h ?w a'"
    "\<forall>r c. in_bounds ?s1 r c \<longrightarrow>
       at a' r c = (if cell ?s1 r c = -1 then -1
          else cell ?s1 r c
            + (\<Sum>m\<leftarrow>ms. int (count_list (surrounds ?s1 (fst m) (snd m)) (r, c))))"
    by auto
  have "locate_each (m # ms) s = Inr (s\<lparr>field := a'\<rparr>)"
    using a1(1) a'(1) by (simp add: m)
  moreover have "\<forall>r c. in_bounds s r c \<longrightarrow>
           at a' r c = (if cell s r c = -1 then -1
              else cell s r c
                + (\<Sum>m\<leftarrow>m # ms. int (count_list (surrounds s (fst m) (snd m)) (r, c))))"
  proof (intro allI impI)
    fix r c assume i: "in_bounds s r c"
    with a1(3) wi have c1: "cell ?s1 r c = (if cell s r c = -1 then -1
        else cell s r c + int (count_list (surrounds s mr mc) (r, c)))"
      by (simp add: cell_def)
    from Cons.prems(4) i have "-1 \<le> cell s r c" by simp
    with c1 have iff: "cell ?s1 r c = -1 \<longleftrightarrow> cell s r c = -1" by auto
    from a'(3) i c1 iff show "at a' r c = (if cell s r c = -1 then -1
              else cell s r c
                + (\<Sum>m\<leftarrow>m # ms. int (count_list (surrounds s (fst m) (snd m)) (r, c))))"
      by (simp add: m)
  qed
  ultimately show ?case using a'(2) by blast
qed

subsection \<open>Surrounding locations and the mines among them\<close>

lemma sur_locs_iff:
  "(a, b) \<in> set (sur_locs r c) \<longleftrightarrow> \<bar>a - r\<bar> \<le> 1 \<and> \<bar>b - c\<bar> \<le> 1 \<and> (a, b) \<noteq> (r, c)"
proof -
  have "\<bar>a - r\<bar> \<le> 1 \<longleftrightarrow> a = r - 1 \<or> a = r \<or> a = r + 1" by linarith
  moreover have "\<bar>b - c\<bar> \<le> 1 \<longleftrightarrow> b = c - 1 \<or> b = c \<or> b = c + 1" by linarith
  ultimately show ?thesis unfolding sur_locs_def by auto
qed

lemma surrounds_iff:
  "(a, b) \<in> set (surrounds s r c)
     \<longleftrightarrow> in_bounds s a b \<and> \<bar>a - r\<bar> \<le> 1 \<and> \<bar>b - c\<bar> \<le> 1 \<and> (a, b) \<noteq> (r, c)"
  by (auto simp: surrounds_def sur_locs_iff in_bounds_def)

lemma surrounds_sym:
  "in_bounds s r c \<Longrightarrow> (a, b) \<in> set (surrounds s r c) \<Longrightarrow> (r, c) \<in> set (surrounds s a b)"
  unfolding surrounds_iff by auto

lemma distinct_surrounds: "distinct (surrounds s r c)"
  by (simp add: surrounds_def sur_locs_def)

lemma length_surrounds: "length (surrounds s r c) \<le> 8"
proof -
  have "length (surrounds s r c) \<le> length (sur_locs r c)"
    unfolding surrounds_def by (rule length_filter_le)
  then show ?thesis by (simp add: sur_locs_def)
qed

lemma count_list_distinct: "distinct xs \<Longrightarrow> count_list xs x = (if x \<in> set xs then 1 else 0)"
  by (induction xs) auto

lemma sum_count_surrounds:
  "(\<Sum>m\<leftarrow>ms. int (count_list (surrounds s (fst m) (snd m)) p))
     = int (length (filter (\<lambda>m. p \<in> set (surrounds s (fst m) (snd m))) ms))"
  by (induction ms) (simp_all add: count_list_distinct[OF distinct_surrounds])

lemma mines_around:
  assumes d: "distinct ms"
    and ms: "set ms = {m. in_bounds s (fst m) (snd m) \<and> M m}"
    and inb: "in_bounds s r c"
  shows "(\<Sum>m\<leftarrow>ms. int (count_list (surrounds s (fst m) (snd m)) (r, c)))
           = int (length (filter M (surrounds s r c)))"
proof -
  have "{m. (r, c) \<in> set (surrounds s (fst m) (snd m))} \<inter> set ms
          = {q. M q} \<inter> set (surrounds s r c)"
  proof (intro set_eqI iffI)
    fix q assume q: "q \<in> {m. (r, c) \<in> set (surrounds s (fst m) (snd m))} \<inter> set ms"
    with ms have i: "in_bounds s (fst q) (snd q)" and m: "M q" by auto
    from q have "(r, c) \<in> set (surrounds s (fst q) (snd q))" by simp
    from surrounds_sym[OF i this] m show "q \<in> {q. M q} \<inter> set (surrounds s r c)" by simp
  next
    fix q assume q: "q \<in> {q. M q} \<inter> set (surrounds s r c)"
    then have s: "(fst q, snd q) \<in> set (surrounds s r c)" by simp
    from surrounds_sym[OF inb s] surrounds_in_bounds[OF s] q ms
    show "q \<in> {m. (r, c) \<in> set (surrounds s (fst m) (snd m))} \<inter> set ms" by simp
  qed
  then show ?thesis
    by (simp add: sum_count_surrounds distinct_length_filter[OF d]
        distinct_length_filter[OF distinct_surrounds])
qed

lemma nonzero_product:
  assumes "shaped h w a"
  shows "nonzero a = map (\<lambda>(i, j). (int i, int j))
           (filter (\<lambda>(i, j). a ! i ! j \<noteq> 0) (List.product [0..<h] [0..<w]))"
proof -
  have "nonzero a = concat (map (\<lambda>i. map (\<lambda>j. (int i, int j))
                         (filter (\<lambda>j. a ! i ! j \<noteq> 0) [0..<w])) [0..<h])"
    unfolding nonzero_def shaped_length[OF assms]
    by (rule arg_cong[where f = concat], rule map_cong) (simp_all add: shaped_row[OF assms])
  also have "\<dots> = map (\<lambda>(i, j). (int i, int j))
           (filter (\<lambda>(i, j). a ! i ! j \<noteq> 0) (List.product [0..<h] [0..<w]))"
    by (simp add: product_concat_map filter_concat map_concat filter_map comp_def)
  finally show ?thesis .
qed

lemma distinct_nonzero: "shaped h w a \<Longrightarrow> distinct (nonzero a)"
  unfolding nonzero_product
  by (intro distinct_map[THEN iffD2] conjI distinct_filter distinct_product)
     (auto simp: inj_on_def)

lemma set_nonzero:
  assumes "shaped h w a"
  shows "set (nonzero a) = {m. within h w (fst m) (snd m) \<and> at a (fst m) (snd m) \<noteq> 0}"
proof (intro set_eqI iffI)
  fix m assume "m \<in> set (nonzero a)"
  then show "m \<in> {m. within h w (fst m) (snd m) \<and> at a (fst m) (snd m) \<noteq> 0}"
    unfolding nonzero_product[OF assms] by (auto simp: within_def at_def)
next
  fix m assume m: "m \<in> {m. within h w (fst m) (snd m) \<and> at a (fst m) (snd m) \<noteq> 0}"
  then have "(nat (fst m), nat (snd m)) \<in> set (filter (\<lambda>(i, j). a ! i ! j \<noteq> 0)
      (List.product [0..<h] [0..<w]))"
    by (auto simp: within_def at_def)
  then have "(\<lambda>(i, j). (int i, int j)) (nat (fst m), nat (snd m)) \<in> set (nonzero a)"
    unfolding nonzero_product[OF assms] set_map by (rule imageI)
  with m show "m \<in> set (nonzero a)" by (simp add: within_def)
qed

subsection \<open>What \<open>__create_field\<close> and \<open>__locate_mines\<close> return\<close>

lemma diff_mode_cases:
  assumes "diff_mode mode = Some (m, w, h)"
  shows "(mode = ''EASY'' \<and> m = 10 \<and> w = 8 \<and> h = 8)
       \<or> (mode = ''MED'' \<and> m = 40 \<and> w = 15 \<and> h = 15)
       \<or> (mode = ''HARD'' \<and> m = 40 \<and> w = 30 \<and> h = 16)"
  using assms by (auto simp: diff_mode_def split: if_splits)

lemma diff_mode_None:
  "mode \<notin> {''EASY'', ''MED'', ''HARD''} \<Longrightarrow> diff_mode mode = None"
  by (simp add: diff_mode_def)

lemma diff_mode_bounds:
  assumes "diff_mode mode = Some (m, w, h)"
  shows "0 < m \<and> 0 < w \<and> 0 < h \<and> m < h * w"
  using diff_mode_cases[OF assms] by auto

lemma reshape_at:
  assumes "length xs = h * w" "within h w r c"
  shows "at (reshape xs h w) r c = xs ! (nat r * w + nat c)"
proof -
  from assms(2) have r: "nat r < h" and c: "nat c < w" by (auto simp: within_def)
  from r have "Suc (nat r) * w \<le> h * w" by (intro mult_le_mono1) simp
  with assms(1) c have "nat r * w + nat c < length xs" by simp
  with r c show ?thesis by (simp add: at_def reshape_def)
qed

lemma create_field_result:
  assumes "0 \<le> height s" "0 \<le> width s" "0 \<le> mine_amnt s"
    and "mine_amnt s \<le> height s * width s"
    and "is_perm perm (nat (height s * width s))"
  shows "\<exists>a. create_field perm s = Inr (s\<lparr>field := a\<rparr>)
     \<and> shaped (nat (height s)) (nat (width s)) a
     \<and> set (concat a) \<subseteq> {-1, 0}
     \<and> length (filter (\<lambda>v. v = -1) (concat a)) = nat (mine_amnt s)"
proof -
  let ?n = "nat (height s * width s)" and ?m = "nat (mine_amnt s)"
  let ?flat = "replicate ?m (-1::int) @ drop ?m (replicate ?n 0)"
  let ?a = "reshape (shuffle perm ?flat) (nat (height s)) (nat (width s))"
  from assms(3,4) have mn: "?m \<le> ?n" by simp
  then have len: "length ?flat = ?n" by simp
  have n: "?n = nat (height s) * nat (width s)"
    using assms(1) by (simp add: nat_mult_distrib)
  have p: "is_perm perm (length ?flat)" using assms(5) len by simp
  have ls: "length (shuffle perm ?flat) = nat (height s) * nat (width s)"
    using length_shuffle[OF p] len n by simp
  have 1: "create_field perm s = Inr (s\<lparr>field := ?a\<rparr>)"
    using mn by (simp add: create_field_def Let_def)
  have 2: "shaped (nat (height s)) (nat (width s)) ?a" by (rule shaped_reshape[OF ls])
  have c: "concat ?a = shuffle perm ?flat" by (rule concat_reshape[OF ls])
  have 3: "set (concat ?a) \<subseteq> {-1, 0}"
    unfolding c set_shuffle[OF p] by (auto dest: in_set_dropD)
  have 4: "length (filter (\<lambda>v. v = -1) (concat ?a)) = ?m"
    unfolding c count_shuffle[OF p] by simp
  from 1 2 3 4 show ?thesis by blast
qed

lemma locate_mines_result:
  assumes h: "0 \<le> height s" "0 \<le> width s"
    and sh: "shaped (nat (height s)) (nat (width s)) (field s)"
    and v: "set (concat (field s)) \<subseteq> {-1, 0}"
  shows "\<exists>a. locate_mines s = Inr (s\<lparr>field := a\<rparr>)
     \<and> shaped (nat (height s)) (nat (width s)) a
     \<and> (\<forall>r c. in_bounds s r c \<longrightarrow>
           (at a r c = -1 \<longleftrightarrow> cell s r c = -1)
           \<and> (at a r c \<noteq> -1 \<longrightarrow>
                at a r c = int (length (filter (\<lambda>(r', c'). at a r' c' = -1) (surrounds s r c)))))"
proof -
  let ?h = "nat (height s)" and ?w = "nat (width s)"
  note wi = within_in_bounds[OF h]
  have val: "cell s r c = -1 \<or> cell s r c = 0" if "in_bounds s r c" for r c
  proof -
    from that have "nat r < ?h" "nat c < ?w" by (auto simp: in_bounds_def)
    from shaped_concat_nth[OF sh this] v show ?thesis by (auto simp: cell_def at_def)
  qed
  then have ge: "\<forall>r c. in_bounds s r c \<longrightarrow> -1 \<le> cell s r c" by fastforce
  from locate_each_at[OF h sh ge, of "nonzero (field s)"] obtain a where
    a: "locate_mines s = Inr (s\<lparr>field := a\<rparr>)" "shaped ?h ?w a"
    "\<forall>r c. in_bounds s r c \<longrightarrow>
       at a r c = (if cell s r c = -1 then -1
          else cell s r c + (\<Sum>m\<leftarrow>nonzero (field s).
                 int (count_list (surrounds s (fst m) (snd m)) (r, c))))"
    unfolding locate_mines_def by blast
  have ms: "set (nonzero (field s)) = {m. in_bounds s (fst m) (snd m) \<and> cell s (fst m) (snd m) = -1}"
    unfolding set_nonzero[OF sh] wi using val by (auto simp: cell_def)
  have cnt: "at a r c = (if cell s r c = -1 then -1
        else int (length (filter (\<lambda>m. cell s (fst m) (snd m) = -1) (surrounds s r c))))"
    if i: "in_bounds s r c" for r c
    using a(3) i val[OF i] mines_around[OF distinct_nonzero[OF sh] ms i] by auto
  have iff: "at a r c = -1 \<longleftrightarrow> cell s r c = -1" if i: "in_bounds s r c" for r c
    using cnt[OF i] by auto
  have same: "filter (\<lambda>(r', c'). at a r' c' = -1) (surrounds s r c)
        = filter (\<lambda>m. cell s (fst m) (snd m) = -1) (surrounds s r c)" for r c
    by (rule filter_cong) (auto dest: surrounds_in_bounds simp: iff)
  have "\<forall>r c. in_bounds s r c \<longrightarrow>
           (at a r c = -1 \<longleftrightarrow> cell s r c = -1)
           \<and> (at a r c \<noteq> -1 \<longrightarrow>
                at a r c = int (length (filter (\<lambda>(r', c'). at a r' c' = -1) (surrounds s r c))))"
    using cnt iff unfolding same by auto
  with a(1,2) show ?thesis by blast
qed

lemma shaped_replicate: "shaped h w (replicate h (replicate w v))"
  by (simp add: shaped_def list_all_length)

lemma concat_elem:
  assumes "shaped h w a" "v \<in> set (concat a)"
  shows "\<exists>r c. within h w r c \<and> v = at a r c"
proof -
  from assms(2) obtain row where row: "row \<in> set a" "v \<in> set row" by auto
  then obtain i where i: "i < length a" "row = a ! i" by (auto simp: in_set_conv_nth)
  from row(2) i obtain j where j: "j < length (a ! i)" "v = a ! i ! j"
    by (auto simp: in_set_conv_nth)
  from i j assms(1) have "i < h" "j < w"
    by (auto simp: shaped_length shaped_row[of h w a])
  with j(2) have "within h w (int i) (int j) \<and> v = at a (int i) (int j)"
    by (simp add: within_def at_def)
  then show ?thesis by blast
qed

lemma init_result:
  assumes dm: "diff_mode mode = Some (m, w, h)" and p: "is_perm perm (nat (h * w))"
  shows "\<exists>a0 a. create_field perm (bare m w h) = Inr ((bare m w h)\<lparr>field := a0\<rparr>)
     \<and> init mode perm = Inr ((bare m w h)\<lparr>field := a,
           field_map := replicate (nat h) (replicate (nat w) 0)\<rparr>)
     \<and> shaped (nat h) (nat w) a0 \<and> shaped (nat h) (nat w) a
     \<and> length (filter (\<lambda>v. v = -1) (concat a0)) = nat m
     \<and> (\<forall>r c. within (nat h) (nat w) r c \<longrightarrow>
           (at a r c = -1 \<longleftrightarrow> at a0 r c = -1)
           \<and> (at a r c \<noteq> -1 \<longrightarrow>
                at a r c = int (length (filter (\<lambda>(r', c'). at a r' c' = -1)
                                  (surrounds (bare m w h) r c)))))"
proof -
  let ?b = "bare m w h"
  from diff_mode_bounds[OF dm] have b: "0 \<le> height ?b" "0 \<le> width ?b" "0 \<le> mine_amnt ?b"
    "mine_amnt ?b \<le> height ?b * width ?b" by (simp_all add: bare_def)
  have p': "is_perm perm (nat (height ?b * width ?b))" using p by (simp add: bare_def)
  from create_field_result[OF b p'] obtain a0 where
    a0: "create_field perm ?b = Inr (?b\<lparr>field := a0\<rparr>)" "shaped (nat h) (nat w) a0"
    "set (concat a0) \<subseteq> {-1, 0}" "length (filter (\<lambda>v. v = -1) (concat a0)) = nat m"
    by (auto simp: bare_def)
  let ?s1 = "?b\<lparr>field := a0\<rparr>"
  have hw1: "height ?s1 = h" "width ?s1 = w" by (simp_all add: bare_def)
  from locate_mines_result[of ?s1] b a0(2,3) hw1 obtain a where
    a: "locate_mines ?s1 = Inr (?s1\<lparr>field := a\<rparr>)" "shaped (nat h) (nat w) a"
    "\<forall>r c. in_bounds ?s1 r c \<longrightarrow>
           (at a r c = -1 \<longleftrightarrow> cell ?s1 r c = -1)
           \<and> (at a r c \<noteq> -1 \<longrightarrow>
                at a r c = int (length (filter (\<lambda>(r', c'). at a r' c' = -1) (surrounds ?s1 r c))))"
    by (auto simp: bare_def)
  have i: "init mode perm = Inr (?b\<lparr>field := a,
           field_map := replicate (nat h) (replicate (nat w) 0)\<rparr>)"
    using dm a0(1) a(1) by (simp add: init_def bare_def)
  have wi: "within (nat h) (nat w) r c = in_bounds ?s1 r c" for r c
    using within_in_bounds[of ?s1 r c] b by (simp add: bare_def)
  have "\<forall>r c. within (nat h) (nat w) r c \<longrightarrow>
           (at a r c = -1 \<longleftrightarrow> at a0 r c = -1)
           \<and> (at a r c \<noteq> -1 \<longrightarrow>
                at a r c = int (length (filter (\<lambda>(r', c'). at a r' c' = -1)
                                  (surrounds ?b r c))))"
    using a(3) unfolding wi by (simp add: cell_def)
  with a0 a(2) i show ?thesis by blast
qed

text \<open>
  Claim C1. For a difficulty of the dictionary and a shuffle that is a permutation,
  \<open>__init__\<close> returns an instance in which, at every location within bounds: the entry
  is a mine exactly when \<open>__create_field\<close> placed one there; and an entry that is not a
  mine is the number of mines among the surrounding locations (the up to eight
  neighbours within bounds, no wraparound), a number from 0 to 8.
\<close>

theorem adjacency_counts:
  assumes "diff_mode mode = Some (m, w, h)" "is_perm perm (nat (h * w))"
  shows "\<exists>s1 s. create_field perm (bare m w h) = Inr s1 \<and> init mode perm = Inr s
     \<and> (\<forall>r c. in_bounds s r c \<longrightarrow>
           (cell s r c = -1 \<longleftrightarrow> cell s1 r c = -1)
           \<and> (cell s r c \<noteq> -1 \<longrightarrow>
                cell s r c = int (length (filter (\<lambda>(r', c'). cell s r' c' = -1)
                                    (surrounds s r c)))
                \<and> 0 \<le> cell s r c \<and> cell s r c \<le> 8))"
proof -
  from init_result[OF assms] obtain a0 a where
    r: "create_field perm (bare m w h) = Inr ((bare m w h)\<lparr>field := a0\<rparr>)"
    "init mode perm = Inr ((bare m w h)\<lparr>field := a,
           field_map := replicate (nat h) (replicate (nat w) 0)\<rparr>)"
    "\<forall>r c. within (nat h) (nat w) r c \<longrightarrow>
           (at a r c = -1 \<longleftrightarrow> at a0 r c = -1)
           \<and> (at a r c \<noteq> -1 \<longrightarrow>
                at a r c = int (length (filter (\<lambda>(r', c'). at a r' c' = -1)
                                  (surrounds (bare m w h) r c))))"
    by blast
  let ?s1 = "(bare m w h)\<lparr>field := a0\<rparr>"
  let ?s = "(bare m w h)\<lparr>field := a, field_map := replicate (nat h) (replicate (nat w) 0)\<rparr>"
  from diff_mode_bounds[OF assms(1)] have pos: "0 \<le> h" "0 \<le> w" by simp_all
  have wi: "in_bounds ?s r c = within (nat h) (nat w) r c" for r c
    using pos by (auto simp: in_bounds_def within_def bare_def)
  have sur: "surrounds ?s r c = surrounds (bare m w h) r c" for r c
    by (simp add: surrounds_def)
  have cl: "cell ?s r c = at a r c" "cell ?s1 r c = at a0 r c" for r c
    by (simp_all add: cell_def)
  have "\<forall>r c. in_bounds ?s r c \<longrightarrow>
           (cell ?s r c = -1 \<longleftrightarrow> cell ?s1 r c = -1)
           \<and> (cell ?s r c \<noteq> -1 \<longrightarrow>
                cell ?s r c = int (length (filter (\<lambda>(r', c'). cell ?s r' c' = -1)
                                    (surrounds ?s r c)))
                \<and> 0 \<le> cell ?s r c \<and> cell ?s r c \<le> 8)"
  proof (intro allI impI)
    fix r c assume "in_bounds ?s r c"
    then have w: "within (nat h) (nat w) r c" by (simp only: wi)
    have le: "length (filter (\<lambda>(r', c'). at a r' c' = -1) (surrounds (bare m w h) r c)) \<le> 8"
      by (rule order_trans[OF length_filter_le length_surrounds])
    from r(3) w have f: "(at a r c = -1 \<longleftrightarrow> at a0 r c = -1)"
      "at a r c \<noteq> -1 \<Longrightarrow> at a r c = int (length (filter (\<lambda>(r', c'). at a r' c' = -1)
                                  (surrounds (bare m w h) r c)))"
      by blast+
    have "0 \<le> at a r c \<and> at a r c \<le> 8" if "at a r c \<noteq> -1"
      using f(2)[OF that] le by linarith
    with f show "(cell ?s r c = -1 \<longleftrightarrow> cell ?s1 r c = -1)
           \<and> (cell ?s r c \<noteq> -1 \<longrightarrow>
                cell ?s r c = int (length (filter (\<lambda>(r', c'). cell ?s r' c' = -1)
                                    (surrounds ?s r c)))
                \<and> 0 \<le> cell ?s r c \<and> cell ?s r c \<le> 8)"
      unfolding cl sur by auto
  qed
  with r(1,2) show ?thesis by blast
qed

theorem adjacency_counts_witness:
  "diff_mode ''EASY'' = Some (10, 8, 8) \<and> is_perm easy_perm (nat (8 * 8))
   \<and> init ''EASY'' easy_perm = Inr easy_game
   \<and> in_bounds easy_game 4 6 \<and> in_bounds easy_game 5 6
   \<and> cell easy_game 5 6 = -1
   \<and> cell easy_game 4 6 = 3
   \<and> cell easy_game 4 6
        = int (length (filter (\<lambda>(r', c'). cell easy_game r' c' = -1) (surrounds easy_game 4 6)))"
proof -
  have a: "diff_mode ''EASY'' = Some (10, 8, 8)" by (simp add: diff_mode_def)
  have b: "is_perm easy_perm (nat (8 * 8))" using easy_perm_is_perm by simp
  have c: "in_bounds easy_game 4 6" "in_bounds easy_game 5 6" by code_simp+
  have d: "cell easy_game 4 6 = 3" "cell easy_game 5 6 = -1" by code_simp+
  from adjacency_counts[OF a b] easy_game_init
  have "\<forall>r c. in_bounds easy_game r c \<longrightarrow>
           (cell easy_game r c \<noteq> -1 \<longrightarrow>
                cell easy_game r c = int (length (filter (\<lambda>(r', c'). cell easy_game r' c' = -1)
                                    (surrounds easy_game r c))))"
    by auto
  with c(1) d(1) have "cell easy_game 4 6
        = int (length (filter (\<lambda>(r', c'). cell easy_game r' c' = -1) (surrounds easy_game 4 6)))"
    by simp
  with a b c d easy_game_init show ?thesis by blast
qed

subsection \<open>The instance \<open>__init__\<close> returns\<close>

lemma init_KeyError: "mode \<notin> {''EASY'', ''MED'', ''HARD''} \<Longrightarrow> init mode perm = Inl KeyError"
  by (simp add: init_def diff_mode_None)

lemma init_instance:
  assumes dm: "diff_mode mode = Some (m, w, h)" and p: "is_perm perm (nat (h * w))"
  shows "\<exists>s. init mode perm = Inr s \<and> mine_amnt s = m \<and> width s = w \<and> height s = h
     \<and> well_shaped s
     \<and> length (filter (\<lambda>v. v = -1) (concat (field s))) = nat m
     \<and> length (filter (\<lambda>v. v \<noteq> -1) (concat (field s))) = nat (w * h - m)
     \<and> (\<forall>v \<in> set (concat (field s)). v \<noteq> -1 \<longrightarrow> 0 \<le> v \<and> v \<le> 8)
     \<and> field_map s = replicate (nat h) (replicate (nat w) 0)
     \<and> \<not> game_lost s \<and> game_won_attr s = None"
proof -
  from init_result[OF assms] obtain a0 a where
    r: "init mode perm = Inr ((bare m w h)\<lparr>field := a,
           field_map := replicate (nat h) (replicate (nat w) 0)\<rparr>)"
    "shaped (nat h) (nat w) a0" "shaped (nat h) (nat w) a"
    "length (filter (\<lambda>v. v = -1) (concat a0)) = nat m"
    "\<forall>r c. within (nat h) (nat w) r c \<longrightarrow>
           (at a r c = -1 \<longleftrightarrow> at a0 r c = -1)
           \<and> (at a r c \<noteq> -1 \<longrightarrow>
                at a r c = int (length (filter (\<lambda>(r', c'). at a r' c' = -1)
                                  (surrounds (bare m w h) r c))))"
    by blast
  let ?s = "(bare m w h)\<lparr>field := a, field_map := replicate (nat h) (replicate (nat w) 0)\<rparr>"
  from diff_mode_bounds[OF dm] have pos: "0 < m" "0 < w" "0 < h" "m < h * w" by simp_all
  have 1: "mine_amnt ?s = m" "width ?s = w" "height ?s = h"
    "field_map ?s = replicate (nat h) (replicate (nat w) 0)"
    "\<not> game_lost ?s" "game_won_attr ?s = None"
    by (simp_all add: bare_def game_lost_def)
  have 2: "well_shaped ?s"
    using pos r(3) by (simp add: well_shaped_def bare_def shaped_replicate)
  have 3: "length (filter (\<lambda>v. v = -1) (concat (field ?s))) = nat m"
  proof -
    have "(a ! i ! j = -1) \<longleftrightarrow> (a0 ! i ! j = -1)" if "i < nat h" "j < nat w" for i j
    proof -
      from that pos have "within (nat h) (nat w) (int i) (int j)"
        unfolding within_def by linarith
      with r(5) have "(at a (int i) (int j) = -1) \<longleftrightarrow> (at a0 (int i) (int j) = -1)"
        by blast
      then show ?thesis by (simp add: at_def)
    qed
    from count_concat_lookup[OF r(3) r(2), of "\<lambda>v. v = -1", OF this] r(4)
    show ?thesis by simp
  qed
  have len: "length (concat a) = nat h * nat w"
  proof -
    have "length (concat a) = sum_list (map length a)" by (simp add: length_concat)
    also have "map length a = replicate (nat h) (nat w)"
      using r(3) by (intro nth_equalityI) (auto simp: shaped_length shaped_row[of "nat h" "nat w" a])
    finally show ?thesis by (simp add: sum_list_replicate)
  qed
  have 4: "length (filter (\<lambda>v. v \<noteq> -1) (concat (field ?s))) = nat (w * h - m)"
  proof -
    from sum_length_filter_compl[of "\<lambda>v. v = -1" "concat a"] 3 len
    have "nat m + length (filter (\<lambda>v. v \<noteq> -1) (concat a)) = nat h * nat w" by simp
    then have "length (filter (\<lambda>v. v \<noteq> -1) (concat a)) = nat h * nat w - nat m"
      by (metis add_diff_cancel_left')
    also have "\<dots> = nat (w * h - m)"
      using pos by (simp add: nat_diff_distrib nat_mult_distrib mult.commute)
    finally show ?thesis by simp
  qed
  have 5: "\<forall>v \<in> set (concat (field ?s)). v \<noteq> -1 \<longrightarrow> 0 \<le> v \<and> v \<le> 8"
  proof (intro ballI impI)
    fix v assume v: "v \<in> set (concat (field ?s))" and nm: "v \<noteq> -1"
    from v have "v \<in> set (concat a)" by simp
    from concat_elem[OF r(3) this] obtain rr cc where
      w: "within (nat h) (nat w) rr cc" and e: "v = at a rr cc" by blast
    from r(5) w e nm have "v = int (length (filter (\<lambda>(r', c'). at a r' c' = -1)
                                  (surrounds (bare m w h) rr cc)))" by simp
    moreover have "length (filter (\<lambda>(r', c'). at a r' c' = -1) (surrounds (bare m w h) rr cc)) \<le> 8"
      by (rule order_trans[OF length_filter_le length_surrounds])
    ultimately show "0 \<le> v \<and> v \<le> 8" by linarith
  qed
  from r(1) 1 2 3 4 5 show ?thesis by blast
qed

text \<open>
  Claim C7 names the three difficulty tokens EASY, MEDIUM and HARD. The keys of the
  dictionary are \<open>'EASY'\<close>, \<open>'MED'\<close> and \<open>'HARD'\<close> (and \<open>play\<close> passes \<open>'MED'\<close>); the
  token \<open>'MEDIUM'\<close> is not among them, and construction with it raises \<open>KeyError\<close>.
\<close>

theorem medium_token_counterexample:
  "diff_mode ''MEDIUM'' = None \<and> init ''MEDIUM'' [0..<225] = Inl KeyError"
  by (simp add: init_def diff_mode_def)

text \<open>
  Claim C7, amended. The dictionary maps \<open>'EASY'\<close>, \<open>'MED'\<close>, \<open>'HARD'\<close> to
  \<open>(mine_amnt, width, height)\<close> = (10,8,8), (40,15,15), (40,30,16); construction with
  any other token raises \<open>KeyError\<close>; and construction with a token of the dictionary
  and a shuffle that is a permutation returns an instance with those three values,
  whose \<open>height \<times> width\<close> field holds exactly \<open>mine_amnt\<close> mines and
  \<open>width * height - mine_amnt\<close> other entries, each a number from 0 to 8, whose
  \<open>field_map\<close> is buried everywhere, and whose \<open>game_lost\<close> is false.
\<close>

theorem init_difficulty:
  "diff_mode ''EASY'' = Some (10, 8, 8)
   \<and> diff_mode ''MED'' = Some (40, 15, 15)
   \<and> diff_mode ''HARD'' = Some (40, 30, 16)
   \<and> (mode \<notin> {''EASY'', ''MED'', ''HARD''} \<longrightarrow> init mode perm = Inl KeyError)
   \<and> (diff_mode mode = Some (m, w, h) \<and> is_perm perm (nat (h * w)) \<longrightarrow>
        (\<exists>s. init mode perm = Inr s \<and> mine_amnt s = m \<and> width s = w \<and> height s = h
           \<and> well_shaped s
           \<and> length (filter (\<lambda>v. v = -1) (concat (field s))) = nat m
           \<and> length (filter (\<lambda>v. v \<noteq> -1) (concat (field s))) = nat (w * h - m)
           \<and> (\<forall>v \<in> set (concat (field s)). v \<noteq> -1 \<longrightarrow> 0 \<le> v \<and> v \<le> 8)
           \<and> field_map s = replicate (nat h) (replicate (nat w) 0)
           \<and> \<not> game_lost s \<and> game_won_attr s = None))"
proof -
  have 1: "diff_mode ''EASY'' = Some (10, 8, 8)" "diff_mode ''MED'' = Some (40, 15, 15)"
    "diff_mode ''HARD'' = Some (40, 30, 16)" by (simp_all add: diff_mode_def)
  from 1 init_KeyError[of mode perm] init_instance[of mode m w h perm] show ?thesis
    by blast
qed

theorem init_difficulty_witness:
  "diff_mode ''EASY'' = Some (10, 8, 8) \<and> is_perm easy_perm (nat (8 * 8))
   \<and> init ''EASY'' easy_perm = Inr easy_game
   \<and> mine_amnt easy_game = 10 \<and> width easy_game = 8 \<and> height easy_game = 8
   \<and> length (filter (\<lambda>v. v = -1) (concat (field easy_game))) = nat 10
   \<and> length (filter (\<lambda>v. v \<noteq> -1) (concat (field easy_game))) = nat (8 * 8 - 10)
   \<and> field_map easy_game = replicate (nat 8) (replicate (nat 8) 0)
   \<and> \<not> game_lost easy_game
   \<and> ''LOW'' \<notin> {''EASY'', ''MED'', ''HARD''}
   \<and> init ''LOW'' easy_perm = Inl KeyError"
proof -
  have a: "diff_mode ''EASY'' = Some (10, 8, 8)" by (simp add: diff_mode_def)
  have b: "is_perm easy_perm (nat (8 * 8))" using easy_perm_is_perm by simp
  have c: "''LOW'' \<notin> {''EASY'', ''MED'', ''HARD''}" by simp
  note t = init_difficulty[of "''EASY''" easy_perm 10 8 8]
  note u = init_difficulty[of "''LOW''" easy_perm 10 8 8]
  from t a b easy_game_init have
    "mine_amnt easy_game = 10 \<and> width easy_game = 8 \<and> height easy_game = 8
     \<and> length (filter (\<lambda>v. v = -1) (concat (field easy_game))) = nat 10
     \<and> length (filter (\<lambda>v. v \<noteq> -1) (concat (field easy_game))) = nat (8 * 8 - 10)
     \<and> field_map easy_game = replicate (nat 8) (replicate (nat 8) 0)
     \<and> \<not> game_lost easy_game"
    by auto
  moreover from u c have "init ''LOW'' easy_perm = Inl KeyError" by blast
  ultimately show ?thesis using a b c easy_game_init by blast
qed

section \<open>The instances a game reaches\<close>

text \<open>
  The statements above about \<open>dig\<close> and \<open>flag\<close> assume a well-shaped instance, and the
  one about the flood fill right counts. Both hold of the instance \<open>__init__\<close> returns
  and are kept by every call, so they hold of every instance a game can reach.
\<close>

lemma counts_ok_frame:
  assumes "field s' = field s" "height s' = height s" "width s' = width s"
  shows "counts_ok s' = counts_ok s"
  using assms by (simp add: counts_ok_def cell_def in_bounds_def surrounds_def)

lemma init_invariant:
  assumes "diff_mode mode = Some (m, w, h)" "is_perm perm (nat (h * w))"
    and "init mode perm = Inr s"
  shows "well_shaped s \<and> counts_ok s"
proof -
  from init_instance[OF assms(1,2)] assms(3) have wf: "well_shaped s" by auto
  from init_result[OF assms(1,2)] assms(3) obtain a where
    s: "s = (bare m w h)\<lparr>field := a, field_map := replicate (nat h) (replicate (nat w) 0)\<rparr>"
    and c: "\<forall>r c. within (nat h) (nat w) r c \<longrightarrow>
           (at a r c \<noteq> -1 \<longrightarrow>
                at a r c = int (length (filter (\<lambda>(r', c'). at a r' c' = -1)
                                  (surrounds (bare m w h) r c))))"
    by auto
  from diff_mode_bounds[OF assms(1)] have pos: "0 \<le> h" "0 \<le> w" by simp_all
  have wi: "in_bounds s r c = within (nat h) (nat w) r c" for r c
    using pos by (auto simp: s in_bounds_def within_def bare_def)
  have sur: "surrounds s r c = surrounds (bare m w h) r c" for r c
    by (simp add: s surrounds_def)
  have cl: "cell s r c = at a r c" for r c by (simp add: s cell_def)
  from c have "counts_ok s" unfolding counts_ok_def wi sur cl by blast
  with wf show ?thesis by simp
qed

lemma dig_invariant:
  assumes "well_shaped s"
  shows "well_shaped (snd (dig r c s))"
proof (cases "valid_index s r c")
  case True
  from dig_ok(1)[OF assms True] show ?thesis by simp
next
  case False
  from getitem_field_map_None[OF assms False]
  have "dig r c s = (Some (index_exception r c), s)"
    by (simp add: dig.simps[of r c s])
  with assms show ?thesis by simp
qed

lemma flag_invariant:
  assumes "well_shaped s"
  shows "well_shaped (snd (flag r c s))"
proof (cases "valid_index s r c")
  case True
  from flag_valid[OF assms True] well_shaped_put[OF assms] assms show ?thesis
    by (simp add: Let_def)
next
  case False
  from getitem_field_map_None[OF assms False]
  have "flag r c s = (Some (index_exception r c), s)"
    by (simp add: flag_def)
  with assms show ?thesis by simp
qed

lemma perform_invariant:
  assumes "well_shaped s \<and> counts_ok s"
  shows "well_shaped (perform k s) \<and> counts_ok (perform k s)"
proof (cases k)
  case (Dig r c)
  with assms dig_invariant[of s r c] counts_ok_frame[of "snd (dig r c s)" s] dig_frame(1)[of r c s]
  show ?thesis by simp
next
  case (Flag r c)
  with assms flag_invariant[of s r c] counts_ok_frame[of "snd (flag r c s)" s] flag_frame[of r c s]
  show ?thesis by simp
next
  case Game_won
  with assms counts_ok_frame[of "snd (game_won s)" s] show ?thesis
    by (simp add: game_won_snd)
next
  case Game_lost
  with assms show ?thesis by simp
qed

lemma reachable_invariant:
  assumes "diff_mode mode = Some (m, w, h)" "is_perm perm (nat (h * w))"
    and "init mode perm = Inr s"
  shows "well_shaped (fold perform calls s) \<and> counts_ok (fold perform calls s)"
proof -
  have "well_shaped s' \<and> counts_ok s' \<Longrightarrow>
        well_shaped (fold perform calls s') \<and> counts_ok (fold perform calls s')" for s'
    by (induction calls arbitrary: s') (simp_all add: perform_invariant)
  with init_invariant[OF assms] show ?thesis by blast
qed

end
